theory Spec2Isabelle
  imports Complex_Main "HOL-Library.Word" "HOL-Library.Sublist" "HOL-Library.Extended_Nat"
begin

section \<open>Geometry used by the octree\<close>

text \<open>
  The engine computes with single-precision floats. The code is modelled over an
  arbitrary scalar type \<open>'f\<close> that has the operations the code uses (addition,
  subtraction, negation, multiplication, division, the constants 0 and 1, the
  comparisons) and no law about them: what is proved of the code at this generality
  holds for every arithmetic, that of binary32 with its rounding, overflow and NaN
  included. A statement that needs the laws of exact arithmetic is stated for an
  ordered field and says so.
  The math headers (Vector3, BoundingBox, Ray) are not part of the sources at hand, so
  the few helpers of them that Octree.cpp calls are written down here.
\<close>

datatype 'f Vector3 = Vector3 (vx: 'f) (vy: 'f) (vz: 'f)

datatype 'f BoundingBox = BoundingBox (bmin: "'f Vector3") (bmax: "'f Vector3")

text \<open>Modelled from the spec: Vector3 arithmetic of Math/Vector3.h (componentwise).\<close>

definition vadd :: "('f::{zero,one,plus,minus,uminus,times,inverse,ord}) Vector3 \<Rightarrow> 'f Vector3 \<Rightarrow> 'f Vector3" where
  "vadd a b = Vector3 (vx a + vx b) (vy a + vy b) (vz a + vz b)"

definition vsub :: "('f::{zero,one,plus,minus,uminus,times,inverse,ord}) Vector3 \<Rightarrow> 'f Vector3 \<Rightarrow> 'f Vector3" where
  "vsub a b = Vector3 (vx a - vx b) (vy a - vy b) (vz a - vz b)"

definition vscale :: "('f::{zero,one,plus,minus,uminus,times,inverse,ord}) Vector3 \<Rightarrow> 'f \<Rightarrow> 'f Vector3" where
  "vscale a k = Vector3 (vx a * k) (vy a * k) (vz a * k)"

text \<open>The literal \<open>0.5f\<close>.\<close>

definition half :: "'f::{zero,one,plus,minus,uminus,times,inverse,ord}" where
  "half = 1 / (1 + 1)"

text \<open>Modelled from the spec: BoundingBox::Center, HalfSize and Size of Math/BoundingBox.h.\<close>

definition Center :: "('f::{zero,one,plus,minus,uminus,times,inverse,ord}) BoundingBox \<Rightarrow> 'f Vector3" where
  "Center b = vscale (vadd (bmax b) (bmin b)) half"

definition HalfSize :: "('f::{zero,one,plus,minus,uminus,times,inverse,ord}) BoundingBox \<Rightarrow> 'f Vector3" where
  "HalfSize b = vscale (vsub (bmax b) (bmin b)) half"

definition Size :: "('f::{zero,one,plus,minus,uminus,times,inverse,ord}) BoundingBox \<Rightarrow> 'f Vector3" where
  "Size b = vsub (bmax b) (bmin b)"

datatype Intersection = OUTSIDE | INTERSECTS | INSIDE

text \<open>
  Modelled from the spec: BoundingBox::IsInside(const BoundingBox&) of Math/BoundingBox.h;
  \<open>IsInside outer b\<close> is INSIDE when \<open>b\<close> lies within \<open>outer\<close> on every axis.
\<close>

definition IsInside :: "('f::{zero,one,plus,minus,uminus,times,inverse,ord}) BoundingBox \<Rightarrow> 'f BoundingBox \<Rightarrow> Intersection" where
  "IsInside outer b =
     (if vx (bmax b) < vx (bmin outer) \<or> vx (bmin b) > vx (bmax outer) \<or>
         vy (bmax b) < vy (bmin outer) \<or> vy (bmin b) > vy (bmax outer) \<or>
         vz (bmax b) < vz (bmin outer) \<or> vz (bmin b) > vz (bmax outer)
      then OUTSIDE
      else if vx (bmin b) < vx (bmin outer) \<or> vx (bmax b) > vx (bmax outer) \<or>
              vy (bmin b) < vy (bmin outer) \<or> vy (bmax b) > vy (bmax outer) \<or>
              vz (bmin b) < vz (bmin outer) \<or> vz (bmax b) > vz (bmax outer)
      then INTERSECTS
      else INSIDE)"

section \<open>Octants\<close>

text \<open>
  An octant lives in the octree's allocator and is referred to by pointer. Octree.h and
  the allocator are not part of the sources at hand.

  Modelled from the spec: the allocator hands out octant records with stable addresses.
  An address is modelled by the position of the slot the octant is created for: the
  child indices from the root, last index first. The root (a member of the Octree, not
  allocated) has address \<open>[]\<close>. The pointers the code follows (\<open>parent\<close>,
  \<open>children\<close>, an object's \<open>octant\<close>) are still stored and read as fields.
\<close>

type_synonym addr = "nat list"

record 'f Octant =
  worldBoundingBox :: "'f BoundingBox"
  cullingBox :: "'f BoundingBox"
  center :: "'f Vector3"
  halfSize :: "'f Vector3"
  level :: int
  parent :: "addr option"
  children :: "nat \<Rightarrow> addr option"
  nodes :: "nat list"
  numNodes :: int
  sortDirty :: bool

text \<open>Octant::Octant(): no parent, no children, no objects.\<close>

definition Octant_new :: "('f::{zero,one,plus,minus,uminus,times,inverse,ord}) Octant" where
  "Octant_new =
     \<lparr> worldBoundingBox = BoundingBox (Vector3 0 0 0) (Vector3 0 0 0),
       cullingBox = BoundingBox (Vector3 0 0 0) (Vector3 0 0 0),
       center = Vector3 0 0 0, halfSize = Vector3 0 0 0, level = 0,
       parent = None, children = (\<lambda>_. None), nodes = [], numNodes = 0,
       sortDirty = False \<rparr>"

text \<open>Octant::Initialize.\<close>

definition Initialize :: "addr option \<Rightarrow> ('f::{zero,one,plus,minus,uminus,times,inverse,ord}) BoundingBox \<Rightarrow> int \<Rightarrow> 'f Octant \<Rightarrow> 'f Octant" where
  "Initialize parent' boundingBox level' oc =
     (let hs = HalfSize boundingBox in
      oc\<lparr> worldBoundingBox := boundingBox,
          center := Center boundingBox,
          halfSize := hs,
          cullingBox := BoundingBox (vsub (bmin boundingBox) hs) (vadd (bmax boundingBox) hs),
          level := level',
          parent := parent' \<rparr>)"

text \<open>Octant::FitBoundingBox.\<close>

definition FitBoundingBox :: "('f::{zero,one,plus,minus,uminus,times,inverse,ord}) Octant \<Rightarrow> 'f BoundingBox \<Rightarrow> 'f Vector3 \<Rightarrow> bool" where
  "FitBoundingBox oc box boxSize =
     (if level oc \<le> 1 \<or> vx boxSize \<ge> vx (halfSize oc) \<or> vy boxSize \<ge> vy (halfSize oc) \<or>
         vz boxSize \<ge> vz (halfSize oc)
      then True
      else if vx (bmin box) \<le> vx (bmin (worldBoundingBox oc)) - half * vx (halfSize oc) \<or>
              vy (bmin box) \<le> vy (bmin (worldBoundingBox oc)) - half * vy (halfSize oc) \<or>
              vz (bmin box) \<le> vz (bmin (worldBoundingBox oc)) - half * vz (halfSize oc) \<or>
              vx (bmax box) \<ge> vx (bmax (worldBoundingBox oc)) + half * vx (halfSize oc) \<or>
              vy (bmax box) \<ge> vy (bmax (worldBoundingBox oc)) + half * vy (halfSize oc) \<or>
              vz (bmax box) \<ge> vz (bmax (worldBoundingBox oc)) + half * vz (halfSize oc)
      then True
      else False)"

text \<open>
  Modelled from the spec: Octant::ChildIndex of Octree.h, a 3-bit index computed per axis
  by comparing the position with the octant's centre.
\<close>

definition ChildIndex :: "('f::{zero,one,plus,minus,uminus,times,inverse,ord}) Octant \<Rightarrow> 'f Vector3 \<Rightarrow> nat" where
  "ChildIndex oc position =
     (if vx position < vx (center oc) then 0 else 1) +
     (if vy position < vy (center oc) then 0 else 2) +
     (if vz position < vz (center oc) then 0 else 4)"

text \<open>The box CreateChildOctant gives to child \<open>index\<close> of an octant.\<close>

definition childBox :: "('f::{zero,one,plus,minus,uminus,times,inverse,ord}) Octant \<Rightarrow> nat \<Rightarrow> 'f BoundingBox" where
  "childBox oc index =
     (let newMin = bmin (worldBoundingBox oc); newMax = bmax (worldBoundingBox oc);
          oldCenter = center oc
      in BoundingBox
          (Vector3 (if odd index then vx oldCenter else vx newMin)
                   (if odd (index div 2) then vy oldCenter else vy newMin)
                   (if odd (index div 4) then vz oldCenter else vz newMin))
          (Vector3 (if odd index then vx newMax else vx oldCenter)
                   (if odd (index div 2) then vy newMax else vy oldCenter)
                   (if odd (index div 4) then vz newMax else vz oldCenter)))"

section \<open>Tracked objects and the octree\<close>

text \<open>
  A tracked object (OctreeNode) is owned by its creator; the octree reads its world
  bounding box and its masks, and writes its octant back-reference, its
  NF_OCTREE_UPDATE_QUEUED flag (kept here as a field of its own) and the frame number
  of its last update. Objects are named by numbers; \<open>objs\<close> is the memory holding them.
\<close>

record 'f OctreeNode =
  nodeBox :: "'f BoundingBox"
  octant :: "addr option"
  updateQueued :: bool
  lastUpdateFrameNumber :: "16 word"
  nodeFlags :: "16 word"
  nodeLayerMask :: "32 word"

text \<open>
  The octree: the octant memory (root at address \<open>[]\<close>, the other octants in the
  allocator), the update queue (\<open>None\<close> is the null pointer left by a cancelled
  entry) and the list of octants whose object list needs sorting.
\<close>

record 'f Octree =
  octs :: "addr \<Rightarrow> 'f Octant option"
  updateQueue :: "nat option list"
  sortDirtyOctants :: "addr list"
  objs :: "nat \<Rightarrow> 'f OctreeNode"

definition root :: "addr" where
  "root = []"

text \<open>The literal \<open>1000.0f\<close>.\<close>

definition DEFAULT_OCTREE_SIZE :: "'f::{zero,one,plus,minus,uminus,times,inverse,ord}" where
  "DEFAULT_OCTREE_SIZE = (let ten = 1 + 1 + 1 + 1 + 1 + 1 + 1 + 1 + 1 + 1 in ten * ten * ten)"

definition DEFAULT_OCTREE_LEVELS :: "int" where
  "DEFAULT_OCTREE_LEVELS = 8"

definition MAX_OCTREE_LEVELS :: "int" where
  "MAX_OCTREE_LEVELS = 256"

text \<open>Modelled from the spec: Clamp of Math/Math.h.\<close>

definition Clamp :: "int \<Rightarrow> int \<Rightarrow> int \<Rightarrow> int" where
  "Clamp v lo hi = (if v < lo then lo else if v > hi then hi else v)"

text \<open>Octree::Octree(), for a given memory of (untracked) objects.\<close>

definition Octree_new :: "(nat \<Rightarrow> ('f::{zero,one,plus,minus,uminus,times,inverse,ord}) OctreeNode) \<Rightarrow> 'f Octree" where
  "Octree_new os =
     \<lparr> octs = (\<lambda>_. None)(root \<mapsto>
         Initialize None
           (BoundingBox (Vector3 (- DEFAULT_OCTREE_SIZE) (- DEFAULT_OCTREE_SIZE) (- DEFAULT_OCTREE_SIZE))
                        (Vector3 DEFAULT_OCTREE_SIZE DEFAULT_OCTREE_SIZE DEFAULT_OCTREE_SIZE))
           DEFAULT_OCTREE_LEVELS Octant_new),
       updateQueue = [], sortDirtyOctants = [], objs = os \<rparr>"

text \<open>
  Operations that follow an octant pointer return \<open>None\<close> when the pointer does not
  name a live octant (undefined behaviour in the C++) or when a loop does not end.
\<close>

text \<open>The loop at the end of Octree::AddNode: increment the count up the parent chain.\<close>

partial_function (option) incNumNodes :: "('f::{zero,one,plus,minus,uminus,times,inverse,ord}) Octree \<Rightarrow> addr option \<Rightarrow> 'f Octree option" where
  "incNumNodes s p =
     (case p of
        None \<Rightarrow> Some s
      | Some a \<Rightarrow>
          (case octs s a of
             None \<Rightarrow> None
           | Some oc \<Rightarrow>
               incNumNodes (s\<lparr>octs := (octs s)(a \<mapsto> oc\<lparr>numNodes := numNodes oc + 1\<rparr>)\<rparr>) (parent oc)))"

text \<open>Octree::AddNode.\<close>

definition AddNode :: "('f::{zero,one,plus,minus,uminus,times,inverse,ord}) Octree \<Rightarrow> nat \<Rightarrow> addr \<Rightarrow> 'f Octree option" where
  "AddNode s node a =
     (case octs s a of
        None \<Rightarrow> None
      | Some oc \<Rightarrow>
          (let oc1 = oc\<lparr>nodes := nodes oc @ [node]\<rparr>;
               os1 = (objs s)(node := (objs s node)\<lparr>octant := Some a\<rparr>);
               s1 = (if \<not> sortDirty oc
                     then s\<lparr>octs := (octs s)(a \<mapsto> oc1\<lparr>sortDirty := True\<rparr>),
                            objs := os1, sortDirtyOctants := sortDirtyOctants s @ [a]\<rparr>
                     else s\<lparr>octs := (octs s)(a \<mapsto> oc1), objs := os1\<rparr>)
           in incNumNodes s1 (Some a)))"

text \<open>Octree::DeleteChildOctant: free the child in the slot and null the slot.\<close>

definition DeleteChildOctant :: "('f::{zero,one,plus,minus,uminus,times,inverse,ord}) Octree \<Rightarrow> addr \<Rightarrow> nat \<Rightarrow> 'f Octree option" where
  "DeleteChildOctant s a index =
     (case octs s a of
        None \<Rightarrow> None
      | Some oc \<Rightarrow>
          (let freed = (case children oc index of None \<Rightarrow> octs s | Some c \<Rightarrow> (octs s)(c := None))
           in Some (s\<lparr>octs := freed(a \<mapsto> oc\<lparr>children := (children oc)(index := None)\<rparr>)\<rparr>)))"

text \<open>
  The inner loop of Octree::RemoveNode(OctreeNode*, Octant*): decrement the count up the
  parent chain and delete the octants whose count reaches zero.
\<close>

partial_function (option) decNumNodes :: "('f::{zero,one,plus,minus,uminus,times,inverse,ord}) Octree \<Rightarrow> addr option \<Rightarrow> 'f Octree option" where
  "decNumNodes s p =
     (case p of
        None \<Rightarrow> Some s
      | Some a \<Rightarrow>
          (case octs s a of
             None \<Rightarrow> None
           | Some oc \<Rightarrow>
               (case parent oc of
                  None \<Rightarrow>
                    decNumNodes (s\<lparr>octs := (octs s)(a \<mapsto> oc\<lparr>numNodes := numNodes oc - 1\<rparr>)\<rparr>) None
                | Some nxt \<Rightarrow>
                    (if numNodes oc - 1 = 0
                     then (case octs (s\<lparr>octs := (octs s)(a \<mapsto> oc\<lparr>numNodes := numNodes oc - 1\<rparr>)\<rparr>) nxt of
                             None \<Rightarrow> None
                           | Some noc \<Rightarrow>
                               (case DeleteChildOctant
                                       (s\<lparr>octs := (octs s)(a \<mapsto> oc\<lparr>numNodes := numNodes oc - 1\<rparr>)\<rparr>)
                                       nxt (ChildIndex noc (center oc)) of
                                  None \<Rightarrow> None
                                | Some s' \<Rightarrow> decNumNodes s' (Some nxt)))
                     else decNumNodes
                            (s\<lparr>octs := (octs s)(a \<mapsto> oc\<lparr>numNodes := numNodes oc - 1\<rparr>)\<rparr>)
                            (Some nxt)))))"

text \<open>Octree::RemoveNode(OctreeNode*, Octant*).\<close>

definition RemoveNodeFrom :: "('f::{zero,one,plus,minus,uminus,times,inverse,ord}) Octree \<Rightarrow> nat \<Rightarrow> addr option \<Rightarrow> 'f Octree option" where
  "RemoveNodeFrom s node p =
     (case p of
        None \<Rightarrow> Some s
      | Some a \<Rightarrow>
          (case octs s a of
             None \<Rightarrow> None
           | Some oc \<Rightarrow>
               (if node \<in> set (nodes oc)
                then decNumNodes (s\<lparr>octs := (octs s)(a \<mapsto> oc\<lparr>nodes := remove1 node (nodes oc)\<rparr>)\<rparr>) (Some a)
                else Some s)))"

text \<open>Octree::CreateChildOctant.\<close>

definition CreateChildOctant :: "('f::{zero,one,plus,minus,uminus,times,inverse,ord}) Octree \<Rightarrow> addr \<Rightarrow> nat \<Rightarrow> ('f Octree \<times> addr) option" where
  "CreateChildOctant s a index =
     (case octs s a of
        None \<Rightarrow> None
      | Some oc \<Rightarrow>
          (case children oc index of
             Some c \<Rightarrow> Some (s, c)
           | None \<Rightarrow>
               (let c = index # a;
                    child = Initialize (Some a) (childBox oc index) (level oc - 1) Octant_new
                in Some (s\<lparr>octs := (octs s)(c \<mapsto> child,
                                             a \<mapsto> oc\<lparr>children := (children oc)(index := Some c)\<rparr>)\<rparr>, c))))"

text \<open>The \<open>insertHere\<close> test of Octree::Update.\<close>

definition insertHere :: "addr \<Rightarrow> ('f::{zero,one,plus,minus,uminus,times,inverse,ord}) Octant \<Rightarrow> 'f BoundingBox \<Rightarrow> bool" where
  "insertHere newOctant oc box =
     (if newOctant = root
      then IsInside (cullingBox oc) box \<noteq> INSIDE \<or> FitBoundingBox oc box (Size box)
      else FitBoundingBox oc box (Size box))"

text \<open>The \<open>for (;;)\<close> loop of Octree::Update: descend to the octant to insert into.\<close>

partial_function (option) findOctant :: "('f::{zero,one,plus,minus,uminus,times,inverse,ord}) Octree \<Rightarrow> addr \<Rightarrow> 'f BoundingBox \<Rightarrow> ('f Octree \<times> addr) option" where
  "findOctant s newOctant box =
     (case octs s newOctant of
        None \<Rightarrow> None
      | Some oc \<Rightarrow>
          (if insertHere newOctant oc box then Some (s, newOctant)
           else (case CreateChildOctant s newOctant (ChildIndex oc (Center box)) of
                   None \<Rightarrow> None
                 | Some (s', c) \<Rightarrow> findOctant s' c box)))"

text \<open>The reinsert part of one pass of the loop of Octree::Update.\<close>

definition reinsert :: "('f::{zero,one,plus,minus,uminus,times,inverse,ord}) Octree \<Rightarrow> nat \<Rightarrow> 'f BoundingBox \<Rightarrow> addr option \<Rightarrow> 'f Octree option" where
  "reinsert s node box oldOctant =
     (case findOctant s root box of
        None \<Rightarrow> None
      | Some (s', newOctant) \<Rightarrow>
          (if Some newOctant \<noteq> oldOctant
           then (case AddNode s' node newOctant of
                   None \<Rightarrow> None
                 | Some s'' \<Rightarrow> RemoveNodeFrom s'' node oldOctant)
           else Some s'))"

text \<open>One pass of the loop of Octree::Update, for a queue entry that is not null.\<close>

definition updateNode :: "16 word \<Rightarrow> nat \<Rightarrow> ('f::{zero,one,plus,minus,uminus,times,inverse,ord}) Octree \<Rightarrow> 'f Octree option" where
  "updateNode frameNumber node s =
     (let s1 = s\<lparr>objs := (objs s)(node := (objs s node)\<lparr>updateQueued := False,
                                          lastUpdateFrameNumber := frameNumber\<rparr>)\<rparr>;
          box = nodeBox (objs s node);
          oldOctant = octant (objs s node)
      in case oldOctant of
           None \<Rightarrow> reinsert s1 node box oldOctant
         | Some a \<Rightarrow>
             (case octs s1 a of
                None \<Rightarrow> None
              | Some oc \<Rightarrow>
                  (if IsInside (cullingBox oc) box = INSIDE \<and> FitBoundingBox oc box (Size box)
                   then Some s1
                   else reinsert s1 node box oldOctant)))"

fun updateLoop :: "16 word \<Rightarrow> nat option list \<Rightarrow> ('f::{zero,one,plus,minus,uminus,times,inverse,ord}) Octree \<Rightarrow> 'f Octree option" where
  "updateLoop frameNumber [] s = Some s"
| "updateLoop frameNumber (None # q) s = updateLoop frameNumber q s"
| "updateLoop frameNumber (Some node # q) s =
     (case updateNode frameNumber node s of
        None \<Rightarrow> None
      | Some s' \<Rightarrow> updateLoop frameNumber q s')"

text \<open>The second loop of Octree::Update: sort the object list of every dirty octant.\<close>

fun sortLoop :: "addr list \<Rightarrow> ('f::{zero,one,plus,minus,uminus,times,inverse,ord}) Octree \<Rightarrow> 'f Octree option" where
  "sortLoop [] s = Some s"
| "sortLoop (a # as) s =
     (case octs s a of
        None \<Rightarrow> None
      | Some oc \<Rightarrow> sortLoop as (s\<lparr>octs := (octs s)(a \<mapsto> oc\<lparr>nodes := sort (nodes oc), sortDirty := False\<rparr>)\<rparr>))"

text \<open>Octree::Update.\<close>

definition Update :: "16 word \<Rightarrow> ('f::{zero,one,plus,minus,uminus,times,inverse,ord}) Octree \<Rightarrow> 'f Octree option" where
  "Update frameNumber s =
     (case updateLoop frameNumber (updateQueue s) s of
        None \<Rightarrow> None
      | Some s1 \<Rightarrow>
          (case sortLoop (sortDirtyOctants s1) (s1\<lparr>updateQueue := []\<rparr>) of
             None \<Rightarrow> None
           | Some s2 \<Rightarrow> Some (s2\<lparr>sortDirtyOctants := []\<rparr>)))"

text \<open>Octree::QueueUpdate.\<close>

definition QueueUpdate :: "nat \<Rightarrow> ('f::{zero,one,plus,minus,uminus,times,inverse,ord}) Octree \<Rightarrow> 'f Octree" where
  "QueueUpdate node s =
     s\<lparr>updateQueue := updateQueue s @ [Some node],
       objs := (objs s)(node := (objs s node)\<lparr>updateQueued := True\<rparr>)\<rparr>"

text \<open>The loop of Octree::CancelUpdate: null the first entry that is the object.\<close>

fun tombstone :: "nat \<Rightarrow> nat option list \<Rightarrow> nat option list" where
  "tombstone node [] = []"
| "tombstone node (e # q) = (if e = Some node then None # q else e # tombstone node q)"

text \<open>Octree::CancelUpdate.\<close>

definition CancelUpdate :: "nat \<Rightarrow> ('f::{zero,one,plus,minus,uminus,times,inverse,ord}) Octree \<Rightarrow> 'f Octree" where
  "CancelUpdate node s =
     s\<lparr>updateQueue := tombstone node (updateQueue s),
       objs := (objs s)(node := (objs s node)\<lparr>updateQueued := False\<rparr>)\<rparr>"

text \<open>Octree::RemoveNode(OctreeNode*).\<close>

definition RemoveNode :: "nat \<Rightarrow> ('f::{zero,one,plus,minus,uminus,times,inverse,ord}) Octree \<Rightarrow> 'f Octree option" where
  "RemoveNode node s =
     (case RemoveNodeFrom s node (octant (objs s node)) of
        None \<Rightarrow> None
      | Some s1 \<Rightarrow>
          (let s2 = (if updateQueued (objs s1 node) then CancelUpdate node s1 else s1)
           in Some (s2\<lparr>objs := (objs s2)(node := (objs s2 node)\<lparr>octant := None\<rparr>)\<rparr>)))"


text \<open>Octree::CollectNodes(std::vector<OctreeNode*>&, Octant*): the objects of a branch.\<close>

partial_function (option) CollectNodes :: "('f::{zero,one,plus,minus,uminus,times,inverse,ord}) Octree \<Rightarrow> addr option \<Rightarrow> nat list option" where
  "CollectNodes s p =
     (case p of
        None \<Rightarrow> Some []
      | Some a \<Rightarrow>
          (case octs s a of
             None \<Rightarrow> None
           | Some oc \<Rightarrow>
               Option.bind (CollectNodes s (children oc 0)) (\<lambda>r0.
               Option.bind (CollectNodes s (children oc 1)) (\<lambda>r1.
               Option.bind (CollectNodes s (children oc 2)) (\<lambda>r2.
               Option.bind (CollectNodes s (children oc 3)) (\<lambda>r3.
               Option.bind (CollectNodes s (children oc 4)) (\<lambda>r4.
               Option.bind (CollectNodes s (children oc 5)) (\<lambda>r5.
               Option.bind (CollectNodes s (children oc 6)) (\<lambda>r6.
               Option.bind (CollectNodes s (children oc 7)) (\<lambda>r7.
                 Some (nodes oc @ r0 @ r1 @ r2 @ r3 @ r4 @ r5 @ r6 @ r7)))))))))))"

text \<open>
  The first loop of Octree::DeleteChildOctants (called with \<open>deletingOctree = false\<close>):
  the objects of the octant lose their back-reference and their queued flag.
\<close>

definition clearNodes :: "nat list \<Rightarrow> (nat \<Rightarrow> ('f::{zero,one,plus,minus,uminus,times,inverse,ord}) OctreeNode) \<Rightarrow> (nat \<Rightarrow> 'f OctreeNode)" where
  "clearNodes ns os = fold (\<lambda>n os'. os'(n := (os' n)\<lparr>octant := None, updateQueued := False\<rparr>)) ns os"

definition childPtr :: "('f::{zero,one,plus,minus,uminus,times,inverse,ord}) Octree \<Rightarrow> addr \<Rightarrow> nat \<Rightarrow> addr option" where
  "childPtr s a i = (case octs s a of None \<Rightarrow> None | Some oc \<Rightarrow> children oc i)"

definition clearChild :: "('f::{zero,one,plus,minus,uminus,times,inverse,ord}) Octree \<Rightarrow> addr \<Rightarrow> nat \<Rightarrow> 'f Octree" where
  "clearChild s a i =
     (case octs s a of
        None \<Rightarrow> s
      | Some oc \<Rightarrow> s\<lparr>octs := (octs s)(a \<mapsto> oc\<lparr>children := (children oc)(i := None)\<rparr>)\<rparr>)"

definition freeOctant :: "('f::{zero,one,plus,minus,uminus,times,inverse,ord}) Octree \<Rightarrow> addr \<Rightarrow> 'f Octree" where
  "freeOctant s a = (if a \<noteq> root then s\<lparr>octs := (octs s)(a := None)\<rparr> else s)"

text \<open>
  Octree::DeleteChildOctants with \<open>deletingOctree = false\<close>. A null child pointer is
  skipped; after the call for child \<open>i\<close> the slot \<open>i\<close> is nulled.
\<close>

partial_function (option) DeleteChildOctants :: "('f::{zero,one,plus,minus,uminus,times,inverse,ord}) Octree \<Rightarrow> addr option \<Rightarrow> 'f Octree option" where
  "DeleteChildOctants s p =
     (case p of
        None \<Rightarrow> Some s
      | Some a \<Rightarrow>
          (case octs s a of
             None \<Rightarrow> None
           | Some oc \<Rightarrow>
               Option.bind (DeleteChildOctants
                   (s\<lparr>objs := clearNodes (nodes oc) (objs s),
                      octs := (octs s)(a \<mapsto> oc\<lparr>nodes := [], numNodes := 0\<rparr>)\<rparr>)
                   (children oc 0)) (\<lambda>s0.
               Option.bind (DeleteChildOctants (clearChild s0 a 0) (childPtr s0 a 1)) (\<lambda>s1.
               Option.bind (DeleteChildOctants (clearChild s1 a 1) (childPtr s1 a 2)) (\<lambda>s2.
               Option.bind (DeleteChildOctants (clearChild s2 a 2) (childPtr s2 a 3)) (\<lambda>s3.
               Option.bind (DeleteChildOctants (clearChild s3 a 3) (childPtr s3 a 4)) (\<lambda>s4.
               Option.bind (DeleteChildOctants (clearChild s4 a 4) (childPtr s4 a 5)) (\<lambda>s5.
               Option.bind (DeleteChildOctants (clearChild s5 a 5) (childPtr s5 a 6)) (\<lambda>s6.
               Option.bind (DeleteChildOctants (clearChild s6 a 6) (childPtr s6 a 7)) (\<lambda>s7.
                 Some (freeOctant (clearChild s7 a 7) a)))))))))))"

text \<open>
  Octree::Resize. Modelled from the spec: \<open>allocator.Reset()\<close> empties the pool, so no
  octant but the root is live afterwards.
\<close>

definition Resize :: "('f::{zero,one,plus,minus,uminus,times,inverse,ord}) BoundingBox \<Rightarrow> int \<Rightarrow> 'f Octree \<Rightarrow> 'f Octree option" where
  "Resize boundingBox numLevels s =
     (case CollectNodes s (Some root) of
        None \<Rightarrow> None
      | Some q \<Rightarrow>
          (case DeleteChildOctants (s\<lparr>updateQueue := map Some q\<rparr>) (Some root) of
             None \<Rightarrow> None
           | Some s1 \<Rightarrow>
               (case octs s1 root of
                  None \<Rightarrow> None
                | Some oc \<Rightarrow>
                    Some (s1\<lparr>octs := (\<lambda>_. None)(root \<mapsto>
                            Initialize None boundingBox (Clamp numLevels 1 MAX_OCTREE_LEVELS) oc)\<rparr>))))"


section \<open>The fit test as the specification words it\<close>

text \<open>
  The octant a box would descend into, were it created: the child selected by the centre
  of the box, initialised as CreateChildOctant does.
\<close>

definition wouldBeChild :: "('f::{zero,one,plus,minus,uminus,times,inverse,ord}) Octant \<Rightarrow> 'f BoundingBox \<Rightarrow> 'f Octant" where
  "wouldBeChild oc box =
     Initialize None (childBox oc (ChildIndex oc (Center box))) (level oc - 1) Octant_new"

text \<open>
  The specification's three cases, read literally: (a) minimum subdivision level,
  (b) the extent of the box on some axis is at least the half-size of the octant,
  (c) on some axis the box lies outside the expanded region (the cullingBox) of the
  would-be child by more than half that child's half-size.
\<close>

definition fitAsSpecified :: "('f::{zero,one,plus,minus,uminus,times,inverse,ord}) Octant \<Rightarrow> 'f BoundingBox \<Rightarrow> 'f Vector3 \<Rightarrow> bool" where
  "fitAsSpecified oc box boxSize =
     (let ch = wouldBeChild oc box; cb = cullingBox ch; m = vscale (halfSize ch) half in
      level oc \<le> 1 \<or>
      (vx boxSize \<ge> vx (halfSize oc) \<or> vy boxSize \<ge> vy (halfSize oc) \<or> vz boxSize \<ge> vz (halfSize oc)) \<or>
      (vx (bmin box) < vx (bmin cb) - vx m \<or> vx (bmax box) > vx (bmax cb) + vx m \<or>
       vy (bmin box) < vy (bmin cb) - vy m \<or> vy (bmax box) > vy (bmax cb) + vy m \<or>
       vz (bmin box) < vz (bmin cb) - vz m \<or> vz (bmax box) > vz (bmax cb) + vz m))"

text \<open>
  The outer faces of the expanded regions of the eight would-be children: the lower
  corner of the cullingBox of child 0 and the upper corner of the cullingBox of child 7.
\<close>

definition childrenCullingHull :: "('f::{zero,one,plus,minus,uminus,times,inverse,ord}) Octant \<Rightarrow> 'f BoundingBox" where
  "childrenCullingHull oc =
     BoundingBox
       (bmin (cullingBox (Initialize None (childBox oc 0) (level oc - 1) Octant_new)))
       (bmax (cullingBox (Initialize None (childBox oc 7) (level oc - 1) Octant_new)))"

text \<open>
  The fit test as amended. The region the test compares with: the octant's own world
  bounding box, moved outwards on every axis by \<open>0.5f\<close> times the stored half-size,
  computed with the arithmetic of the code from the stored fields.
\<close>

definition fitRegion :: "('f::{zero,one,plus,minus,uminus,times,inverse,ord}) Octant \<Rightarrow> 'f BoundingBox" where
  "fitRegion oc =
     (let w = worldBoundingBox oc; h = halfSize oc in
      BoundingBox
        (Vector3 (vx (bmin w) - half * vx h) (vy (bmin w) - half * vy h) (vz (bmin w) - half * vz h))
        (Vector3 (vx (bmax w) + half * vx h) (vy (bmax w) + half * vy h) (vz (bmax w) + half * vz h)))"

text \<open>
  The three cases as amended: (a) and (b) as before, (c) on some axis the box reaches or
  crosses a face of that region (the comparisons admit equality).
\<close>

definition fitAmended :: "('f::{zero,one,plus,minus,uminus,times,inverse,ord}) Octant \<Rightarrow> 'f BoundingBox \<Rightarrow> 'f Vector3 \<Rightarrow> bool" where
  "fitAmended oc box boxSize \<longleftrightarrow>
     level oc \<le> 1 \<or>
     (vx (halfSize oc) \<le> vx boxSize \<or> vy (halfSize oc) \<le> vy boxSize \<or> vz (halfSize oc) \<le> vz boxSize) \<or>
     (vx (bmin box) \<le> vx (bmin (fitRegion oc)) \<or> vx (bmax (fitRegion oc)) \<le> vx (bmax box) \<or>
      vy (bmin box) \<le> vy (bmin (fitRegion oc)) \<or> vy (bmax (fitRegion oc)) \<le> vy (bmax box) \<or>
      vz (bmin box) \<le> vz (bmin (fitRegion oc)) \<or> vz (bmax (fitRegion oc)) \<le> vz (bmax box))"

section \<open>Objects for examples\<close>

text \<open>An object that is not in any octree: no back-reference, not queued.\<close>

definition untracked :: "('f::{zero,one,plus,minus,uminus,times,inverse,ord}) BoundingBox \<Rightarrow> 'f OctreeNode" where
  "untracked box =
     \<lparr> nodeBox = box, octant = None, updateQueued = False, lastUpdateFrameNumber = 0,
       nodeFlags = 0, nodeLayerMask = 1 \<rparr>"

definition pointBox :: "('f::{zero,one,plus,minus,uminus,times,inverse,ord}) \<Rightarrow> 'f \<Rightarrow> 'f \<Rightarrow> 'f BoundingBox" where
  "pointBox px py pz = BoundingBox (Vector3 px py pz) (Vector3 px py pz)"

section \<open>Well-formed octant memories\<close>

text \<open>The object list of the octant at an address; empty where no octant lives.\<close>

definition nodesOf :: "(addr \<Rightarrow> ('f::{zero,one,plus,minus,uminus,times,inverse,ord}) Octant option) \<Rightarrow> addr \<Rightarrow> nat list" where
  "nodesOf m a = (case m a of None \<Rightarrow> [] | Some oc \<Rightarrow> nodes oc)"

text \<open>The number of objects in the branch below (and including) an address.\<close>

definition cnt :: "(addr \<Rightarrow> ('f::{zero,one,plus,minus,uminus,times,inverse,ord}) Octant option) \<Rightarrow> addr \<Rightarrow> int" where
  "cnt m a = (\<Sum>b\<in>{b \<in> dom m. suffix a b}. int (length (nodesOf m b)))"

text \<open>
  The octants form a tree: the root lives; a live octant other than the root sits in
  the slot of its live parent that its address names; a slot that is not null points
  to the live child of that address; the parent pointer is the address less its first
  index.
\<close>

definition tree :: "(addr \<Rightarrow> ('f::{zero,one,plus,minus,uminus,times,inverse,ord}) Octant option) \<Rightarrow> bool" where
  "tree m \<longleftrightarrow>
     finite (dom m) \<and> m root \<noteq> None \<and>
     (\<forall>a i. m (i # a) \<noteq> None \<longrightarrow> (\<exists>oc. m a = Some oc \<and> children oc i = Some (i # a))) \<and>
     (\<forall>a oc i c. m a = Some oc \<longrightarrow> children oc i = Some c \<longrightarrow> c = i # a \<and> m c \<noteq> None) \<and>
     (\<forall>a oc. m a = Some oc \<longrightarrow> parent oc = (case a of [] \<Rightarrow> None | i # p \<Rightarrow> Some p))"

text \<open>The fields Octant::Initialize derives from the world bounding box.\<close>

definition derived :: "('f::{zero,one,plus,minus,uminus,times,inverse,ord}) Octant \<Rightarrow> bool" where
  "derived oc \<longleftrightarrow>
     center oc = Center (worldBoundingBox oc) \<and>
     halfSize oc = HalfSize (worldBoundingBox oc) \<and>
     cullingBox oc = BoundingBox (vsub (bmin (worldBoundingBox oc)) (halfSize oc))
                                 (vadd (bmax (worldBoundingBox oc)) (halfSize oc))"

definition posSize :: "('f::linordered_field) Octant \<Rightarrow> bool" where
  "posSize oc \<longleftrightarrow> 0 < vx (halfSize oc) \<and> 0 < vy (halfSize oc) \<and> 0 < vz (halfSize oc)"



text \<open>
  Geometry: every octant has the derived fields of its box; a child has the box
  CreateChildOctant gives to its slot, one level less than its parent, and its centre
  selects its own slot in its parent, which has a positive size.
\<close>

definition geo :: "(addr \<Rightarrow> ('f::linordered_field) Octant option) \<Rightarrow> bool" where
  "geo m \<longleftrightarrow>
     (\<forall>a oc. m a = Some oc \<longrightarrow> derived oc \<and>
        (\<forall>i p. a = i # p \<longrightarrow>
           (\<exists>poc. m p = Some poc \<and> posSize poc \<and> worldBoundingBox oc = childBox poc i \<and>
                  level oc = level poc - 1 \<and> ChildIndex poc (center oc) = i)))"

text \<open>
  Counts: \<open>numNodes\<close> is the number of objects of the branch, off by \<open>k\<close> on the
  addresses in \<open>X\<close> (those a running loop has yet to adjust).
\<close>

definition counts :: "(addr \<Rightarrow> ('f::{zero,one,plus,minus,uminus,times,inverse,ord}) Octant option) \<Rightarrow> addr set \<Rightarrow> int \<Rightarrow> bool" where
  "counts m X k \<longleftrightarrow> (\<forall>a oc. m a = Some oc \<longrightarrow> numNodes oc = cnt m a + (if a \<in> X then k else 0))"

text \<open>Pruning: every octant but the root holds an object in its branch, except those in \<open>E\<close>.\<close>

definition pruned :: "(addr \<Rightarrow> ('f::{zero,one,plus,minus,uminus,times,inverse,ord}) Octant option) \<Rightarrow> addr set \<Rightarrow> bool" where
  "pruned m E \<longleftrightarrow> (\<forall>a. m a \<noteq> None \<longrightarrow> a \<noteq> root \<longrightarrow> a \<notin> E \<longrightarrow> 0 < cnt m a)"

text \<open>
  Back-references: the object lists have no duplicates, and an object is in the list of
  an octant exactly when its back-reference is that octant.
\<close>

definition refs :: "(addr \<Rightarrow> ('f::{zero,one,plus,minus,uminus,times,inverse,ord}) Octant option) \<Rightarrow> (nat \<Rightarrow> 'f OctreeNode) \<Rightarrow> bool" where
  "refs m os \<longleftrightarrow> (\<forall>a. distinct (nodesOf m a) \<and> (\<forall>n. n \<in> set (nodesOf m a) \<longleftrightarrow> octant (os n) = Some a))"

definition validBox :: "('f::{zero,one,plus,minus,uminus,times,inverse,ord}) BoundingBox \<Rightarrow> bool" where
  "validBox b \<longleftrightarrow> vx (bmin b) \<le> vx (bmax b) \<and> vy (bmin b) \<le> vy (bmax b) \<and> vz (bmin b) \<le> vz (bmax b)"

text \<open>The addresses on the way from the root to an address, the address included.\<close>

definition chain :: "addr \<Rightarrow> addr set" where
  "chain a = {b. suffix b a}"

text \<open>The invariant of the octree between two operations.\<close>

definition wellFormed :: "('f::linordered_field) Octree \<Rightarrow> bool" where
  "wellFormed s \<longleftrightarrow>
     tree (octs s) \<and> geo (octs s) \<and> counts (octs s) {} 0 \<and> pruned (octs s) {} \<and>
     refs (octs s) (objs s) \<and> (\<forall>n. validBox (nodeBox (objs s n))) \<and>
     sortDirtyOctants s = [] \<and> (\<forall>a oc. octs s a = Some oc \<longrightarrow> \<not> sortDirty oc)"

text \<open>The tracked objects: those whose back-reference names an octant of the tree.\<close>

definition tracked :: "('f::{zero,one,plus,minus,uminus,times,inverse,ord}) Octree \<Rightarrow> nat set" where
  "tracked s = {n. \<exists>a. octant (objs s n) = Some a \<and> octs s a \<noteq> None}"


section \<open>The loops over the parent chain as functions of the address\<close>

text \<open>What the loop of AddNode does to a well-formed memory: add \<open>k\<close> along the chain.\<close>

definition chainAdd :: "(addr \<Rightarrow> ('f::{zero,one,plus,minus,uminus,times,inverse,ord}) Octant option) \<Rightarrow> addr \<Rightarrow> int \<Rightarrow> (addr \<Rightarrow> 'f Octant option)" where
  "chainAdd m a k =
     (\<lambda>b. if suffix b a then map_option (\<lambda>oc. oc\<lparr>numNodes := numNodes oc + k\<rparr>) (m b) else m b)"

text \<open>
  What the loop of RemoveNode does to a well-formed memory: decrement along the chain
  and free each octant but the root whose count reaches zero, nulling its slot.
\<close>

fun decChain :: "(addr \<Rightarrow> ('f::{zero,one,plus,minus,uminus,times,inverse,ord}) Octant option) \<Rightarrow> addr \<Rightarrow> (addr \<Rightarrow> 'f Octant option)" where
  "decChain m [] = m([] := map_option (\<lambda>oc. oc\<lparr>numNodes := numNodes oc - 1\<rparr>) (m []))"
| "decChain m (i # p) =
     (case m (i # p) of
        None \<Rightarrow> m
      | Some oc \<Rightarrow>
          (if numNodes oc - 1 = 0
           then decChain (m(i # p := None,
                            p := map_option (\<lambda>noc. noc\<lparr>children := (children noc)(i := None)\<rparr>) (m p))) p
           else decChain (m(i # p \<mapsto> oc\<lparr>numNodes := numNodes oc - 1\<rparr>)) p))"

text \<open>What the two loops need of the chain of an address to run as these functions.\<close>

definition chainOK :: "(addr \<Rightarrow> ('f::{zero,one,plus,minus,uminus,times,inverse,ord}) Octant option) \<Rightarrow> addr \<Rightarrow> bool" where
  "chainOK m a \<longleftrightarrow>
     (\<forall>b. suffix b a \<longrightarrow>
        (\<exists>oc. m b = Some oc \<and> parent oc = (case b of [] \<Rightarrow> None | j # q \<Rightarrow> Some q) \<and>
           (\<forall>j q. b = j # q \<longrightarrow>
              (\<exists>qoc. m q = Some qoc \<and> children qoc j = Some b \<and> ChildIndex qoc (center oc) = j))))"

text \<open>CreateChildOctant as a function of the octant memory.\<close>

definition createChild :: "(addr \<Rightarrow> ('f::{zero,one,plus,minus,uminus,times,inverse,ord}) Octant option) \<Rightarrow> addr \<Rightarrow> nat \<Rightarrow> (addr \<Rightarrow> 'f Octant option) \<times> addr" where
  "createChild m a i =
     (case m a of
        None \<Rightarrow> (m, a)
      | Some oc \<Rightarrow>
          (case children oc i of
             Some c \<Rightarrow> (m, c)
           | None \<Rightarrow>
               (m(i # a \<mapsto> Initialize (Some a) (childBox oc i) (level oc - 1) Octant_new,
                  a \<mapsto> oc\<lparr>children := (children oc)(i := Some (i # a))\<rparr>), i # a)))"

text \<open>The fields of an octant that only Initialize writes.\<close>

definition geomPart :: "('f::{zero,one,plus,minus,uminus,times,inverse,ord}) Octant \<Rightarrow> 'f BoundingBox \<times> 'f BoundingBox \<times> 'f Vector3 \<times> 'f Vector3 \<times> int" where
  "geomPart oc = (worldBoundingBox oc, cullingBox oc, center oc, halfSize oc, level oc)"

text \<open>Two memories with the same octants up to object lists, counts and dirty flags.\<close>

definition sameShape :: "(addr \<Rightarrow> ('f::{zero,one,plus,minus,uminus,times,inverse,ord}) Octant option) \<Rightarrow> (addr \<Rightarrow> 'f Octant option) \<Rightarrow> bool" where
  "sameShape m m' \<longleftrightarrow>
     (\<forall>a. (m a = None \<longleftrightarrow> m' a = None) \<and>
          (\<forall>oc oc'. m a = Some oc \<longrightarrow> m' a = Some oc' \<longrightarrow>
             geomPart oc' = geomPart oc \<and> parent oc' = parent oc \<and> children oc' = children oc))"

text \<open>
  A memory that grew: every octant lives on with its geometry and its dirty flag, and
  the octants that are new are not dirty.
\<close>

definition grows :: "(addr \<Rightarrow> ('f::{zero,one,plus,minus,uminus,times,inverse,ord}) Octant option) \<Rightarrow> (addr \<Rightarrow> 'f Octant option) \<Rightarrow> bool" where
  "grows m m' \<longleftrightarrow>
     (\<forall>b oc. m b = Some oc \<longrightarrow>
        (\<exists>oc'. m' b = Some oc' \<and> geomPart oc' = geomPart oc \<and> sortDirty oc' = sortDirty oc)) \<and>
     (\<forall>b oc'. m b = None \<longrightarrow> m' b = Some oc' \<longrightarrow> \<not> sortDirty oc')"

text \<open>
  A memory that shrank: every octant left was there before, with the same geometry and
  dirty flag.
\<close>

definition shrinks :: "(addr \<Rightarrow> ('f::{zero,one,plus,minus,uminus,times,inverse,ord}) Octant option) \<Rightarrow> (addr \<Rightarrow> 'f Octant option) \<Rightarrow> bool" where
  "shrinks m m' \<longleftrightarrow>
     (\<forall>b oc'. m' b = Some oc' \<longrightarrow>
        (\<exists>oc. m b = Some oc \<and> geomPart oc' = geomPart oc \<and> sortDirty oc' = sortDirty oc))"

text \<open>
  The invariant of the descent of Update from a well-formed memory \<open>m0\<close>: the memory
  stays well-formed but for the new, still empty octants on the way to the current
  octant; nothing but such octants is new; the box lies in the cullingBox of the current
  octant unless that is the root.
\<close>

definition descentInv :: "(addr \<Rightarrow> ('f::linordered_field) Octant option) \<Rightarrow> 'f BoundingBox \<Rightarrow> (addr \<Rightarrow> 'f Octant option) \<Rightarrow> addr \<Rightarrow> bool" where
  "descentInv m0 box m a \<longleftrightarrow>
     tree m \<and> geo m \<and> counts m {} 0 \<and> pruned m (chain a) \<and> nodesOf m = nodesOf m0 \<and>
     grows m0 m \<and> (m \<noteq> m0 \<longrightarrow> m0 a = None) \<and>
     (\<exists>oc. m a = Some oc \<and> (a \<noteq> root \<longrightarrow> IsInside (cullingBox oc) box = INSIDE))"

section \<open>The invariant of the loop of Update\<close>

text \<open>
  An object is settled when one more pass of the loop of Update would leave it where it
  is: its octant passes the test of the fast path, or it is the root and the box is not
  inside the cullingBox of the root.
\<close>

definition settled :: "('f::linordered_field) Octree \<Rightarrow> nat \<Rightarrow> bool" where
  "settled s n \<longleftrightarrow>
     (\<exists>a oc. octant (objs s n) = Some a \<and> octs s a = Some oc \<and>
        (IsInside (cullingBox oc) (nodeBox (objs s n)) = INSIDE \<and>
           FitBoundingBox oc (nodeBox (objs s n)) (Size (nodeBox (objs s n))) \<or>
         a = root \<and> IsInside (cullingBox oc) (nodeBox (objs s n)) \<noteq> INSIDE))"

text \<open>What holds of the octree at every point between two passes of the loop.\<close>

definition core :: "('f::linordered_field) Octree \<Rightarrow> bool" where
  "core s \<longleftrightarrow>
     tree (octs s) \<and> geo (octs s) \<and> counts (octs s) {} 0 \<and> pruned (octs s) {} \<and>
     refs (octs s) (objs s) \<and> (\<forall>n. validBox (nodeBox (objs s n))) \<and>
     (\<forall>a oc. octs s a = Some oc \<longrightarrow> sortDirty oc \<longrightarrow> a \<in> set (sortDirtyOctants s))"

text \<open>An octant that lives in both memories has the same geometry in both.\<close>

definition stable :: "(addr \<Rightarrow> ('f::{zero,one,plus,minus,uminus,times,inverse,ord}) Octant option) \<Rightarrow> (addr \<Rightarrow> 'f Octant option) \<Rightarrow> bool" where
  "stable m m' \<longleftrightarrow> (\<forall>b ob ob'. m b = Some ob \<longrightarrow> m' b = Some ob' \<longrightarrow> geomPart ob' = geomPart ob)"

text \<open>
  The invariant of the loop, \<open>P\<close> being the objects already passed: they are settled,
  and every octant listed as dirty holds one of them.
\<close>

definition loopInv :: "('f::linordered_field) Octree \<Rightarrow> nat set \<Rightarrow> bool" where
  "loopInv s P \<longleftrightarrow>
     core s \<and> (\<forall>a\<in>set (sortDirtyOctants s). \<exists>n\<in>P. octant (objs s n) = Some a) \<and>
     (\<forall>n\<in>P. settled s n)"

text \<open>
  What a pass of the loop that reinserts object \<open>n\<close> into octant \<open>c\<close> achieves: only the
  back-reference of \<open>n\<close> changes among the objects, the octree stays well-formed, \<open>n\<close> is
  settled, octants keep their geometry, and at most \<open>c\<close> becomes dirty.
\<close>

definition moved :: "('f::linordered_field) Octree \<Rightarrow> nat \<Rightarrow> 'f Octree \<Rightarrow> addr \<Rightarrow> bool" where
  "moved s n s' c \<longleftrightarrow>
     updateQueue s' = updateQueue s \<and>
     objs s' = (objs s)(n := (objs s n)\<lparr>octant := Some c\<rparr>) \<and>
     core s' \<and> settled s' n \<and> stable (octs s) (octs s') \<and>
     set (sortDirtyOctants s) \<subseteq> set (sortDirtyOctants s') \<and>
     set (sortDirtyOctants s') \<subseteq> insert c (set (sortDirtyOctants s)) \<and>
     (octant (objs s n) = Some c \<longrightarrow> s' = s)"

text \<open>What one pass of the loop for object \<open>n\<close> does to the rest of the state.\<close>

definition passed :: "16 word \<Rightarrow> ('f::linordered_field) Octree \<Rightarrow> nat \<Rightarrow> 'f Octree \<Rightarrow> bool" where
  "passed f s n s' \<longleftrightarrow>
     updateQueue s' = updateQueue s \<and>
     (\<forall>k. k \<noteq> n \<longrightarrow> objs s' k = objs s k) \<and>
     (\<forall>k. nodeBox (objs s' k) = nodeBox (objs s k)) \<and>
     stable (octs s) (octs s') \<and>
     \<not> updateQueued (objs s' n) \<and> lastUpdateFrameNumber (objs s' n) = f \<and>
     (settled s n \<longrightarrow>
        s' = s\<lparr>objs := (objs s)(n := (objs s n)\<lparr>updateQueued := False,
                                          lastUpdateFrameNumber := f\<rparr>)\<rparr>)"

text \<open>
  What the first loop of Update, run over the queue \<open>q\<close>, does to the rest of the state:
  objects not in the queue are untouched and their octants keep their geometry, as does
  the root; the queued objects have their flag cleared and their frame number set.
\<close>

definition looped :: "16 word \<Rightarrow> ('f::linordered_field) Octree \<Rightarrow> nat option list \<Rightarrow> 'f Octree \<Rightarrow> bool" where
  "looped f s q s' \<longleftrightarrow>
     (\<forall>k. Some k \<notin> set q \<longrightarrow> objs s' k = objs s k) \<and>
     (\<forall>k. nodeBox (objs s' k) = nodeBox (objs s k)) \<and>
     (\<forall>k. Some k \<in> set q \<longrightarrow> \<not> updateQueued (objs s' k) \<and> lastUpdateFrameNumber (objs s' k) = f) \<and>
     (\<forall>k b ob. Some k \<notin> set q \<longrightarrow> octant (objs s k) = Some b \<longrightarrow> octs s b = Some ob \<longrightarrow>
        (\<exists>ob'. octs s' b = Some ob' \<and> geomPart ob' = geomPart ob)) \<and>
     (\<forall>ob. octs s root = Some ob \<longrightarrow> (\<exists>ob'. octs s' root = Some ob' \<and> geomPart ob' = geomPart ob))"

text \<open>
  What the second loop of Update does to the octants: the object lists are permuted,
  and no octant becomes dirty.
\<close>

definition resorted :: "(addr \<Rightarrow> ('f::{zero,one,plus,minus,uminus,times,inverse,ord}) Octant option) \<Rightarrow> (addr \<Rightarrow> 'f Octant option) \<Rightarrow> bool" where
  "resorted m m' \<longleftrightarrow>
     sameShape m m' \<and>
     (\<forall>a. set (nodesOf m' a) = set (nodesOf m a) \<and> length (nodesOf m' a) = length (nodesOf m a)) \<and>
     (\<forall>a oc oc'. m a = Some oc \<longrightarrow> m' a = Some oc' \<longrightarrow>
        numNodes oc' = numNodes oc \<and> (sortDirty oc' \<longrightarrow> sortDirty oc))"

section \<open>The recursion of Resize\<close>

text \<open>
  The loop over the children of Octree::DeleteChildOctants, for the children in the
  list: delete the branch of the child, then null its slot.
\<close>

fun delKids :: "('f::{zero,one,plus,minus,uminus,times,inverse,ord}) Octree \<Rightarrow> addr \<Rightarrow> nat list \<Rightarrow> 'f Octree option" where
  "delKids s a [] = Some s"
| "delKids s a (i # is) =
     Option.bind (DeleteChildOctants s (childPtr s a i)) (\<lambda>s'. delKids (clearChild s' a i) a is)"

text \<open>What DeleteChildOctants does to an object of the branch.\<close>

definition clr :: "('f::{zero,one,plus,minus,uminus,times,inverse,ord}) OctreeNode \<Rightarrow> 'f OctreeNode" where
  "clr r = r\<lparr>octant := None, updateQueued := False\<rparr>"

text \<open>The objects in the lists of the octants of a branch.\<close>

definition branchObjs :: "(addr \<Rightarrow> ('f::{zero,one,plus,minus,uminus,times,inverse,ord}) Octant option) \<Rightarrow> addr \<Rightarrow> nat set" where
  "branchObjs m a = {k. \<exists>b. suffix a b \<and> k \<in> set (nodesOf m b)}"

text \<open>
  The branch at an address is a tree of its own: slots point to live children at the
  addresses they name, live octants sit in the slot of their parent, and only the
  eight slots of the array are used.
\<close>

definition subtreeOK :: "(addr \<Rightarrow> ('f::{zero,one,plus,minus,uminus,times,inverse,ord}) Octant option) \<Rightarrow> addr \<Rightarrow> bool" where
  "subtreeOK m a \<longleftrightarrow>
     finite (dom m) \<and> m a \<noteq> None \<and>
     (\<forall>b i. suffix a b \<longrightarrow> m (i # b) \<noteq> None \<longrightarrow>
        (\<exists>oc. m b = Some oc \<and> children oc i = Some (i # b))) \<and>
     (\<forall>b oc i c. suffix a b \<longrightarrow> m b = Some oc \<longrightarrow> children oc i = Some c \<longrightarrow>
        c = i # b \<and> m c \<noteq> None \<and> i < 8)"

text \<open>The state DeleteChildOctants leaves when called for the octant at an address.\<close>

definition deleted :: "('f::{zero,one,plus,minus,uminus,times,inverse,ord}) Octree \<Rightarrow> addr \<Rightarrow> 'f Octree" where
  "deleted s a =
     s\<lparr>octs := (\<lambda>b. if suffix a b
                     then (if b = root
                           then map_option (\<lambda>oc. oc\<lparr>children := (\<lambda>_. None), nodes := [], numNodes := 0\<rparr>)
                                  (octs s b)
                           else None)
                     else octs s b),
       objs := (\<lambda>k. if k \<in> branchObjs (octs s) a then clr (objs s k) else objs s k)\<rparr>"

text \<open>
  The state in the middle of DeleteChildOctants for the octant \<open>oc\<close> at an address: its
  own objects are cleared, and the branches of the children in \<open>J\<close> are deleted.
\<close>

definition kidsDeleted :: "('f::{zero,one,plus,minus,uminus,times,inverse,ord}) Octree \<Rightarrow> addr \<Rightarrow> 'f Octant \<Rightarrow> nat set \<Rightarrow> 'f Octree" where
  "kidsDeleted s a oc J =
     s\<lparr>octs := (\<lambda>b. if b = a
                     then Some (oc\<lparr>children := (\<lambda>i. if i \<in> J then None else children oc i),
                                  nodes := [], numNodes := 0\<rparr>)
                     else if \<exists>j\<in>J. suffix (j # a) b then None
                     else octs s b),
       objs := (\<lambda>k. if k \<in> set (nodes oc) \<or> (\<exists>j\<in>J. k \<in> branchObjs (octs s) (j # a))
                     then clr (objs s k) else objs s k)\<rparr>"

section \<open>Single-precision arithmetic\<close>

text \<open>
  The arithmetic of \<open>float\<close> (IEEE 754 binary32, round to nearest, ties to even) on the
  finite values of the normal range: a value is a real number, and the result of an
  operation is the exact result rounded to a significand of 24 bits. Overflow,
  subnormal numbers, infinities, NaN and the sign of zero are not modelled; the examples
  computed with this arithmetic stay within the normal range.
\<close>

text \<open>The number of binary digits of a natural number.\<close>

fun bitLength :: "nat \<Rightarrow> nat" where
  "bitLength n = (if n = 0 then 0 else Suc (bitLength (n div 2)))"

text \<open>The binary exponent of a number other than 0: \<open>2 ^ e \<le> \<bar>x\<bar> < 2 ^ (e + 1)\<close>.\<close>

definition exponent :: "real \<Rightarrow> int" where
  "exponent x =
     (if 1 \<le> \<bar>x\<bar> then int (bitLength (nat \<lfloor>\<bar>x\<bar>\<rfloor>)) - 1
      else - int (bitLength (nat (\<lceil>1 / \<bar>x\<bar>\<rceil> - 1))))"

text \<open>Rounding to the nearest integer, a tie to the even one.\<close>

definition roundEven :: "real \<Rightarrow> int" where
  "roundEven q =
     (let f = \<lfloor>q\<rfloor>; d = q - of_int f in
      if d < 1 / 2 then f else if 1 / 2 < d then f + 1 else if even f then f else f + 1)"

text \<open>Rounding to 24 significant bits: the unit in the last place is \<open>2 ^ (e - 23)\<close>.\<close>

definition round32 :: "real \<Rightarrow> real" where
  "round32 x =
     (if x = 0 then 0
      else let e = exponent x;
               u = (if 23 \<le> e then 2 ^ nat (e - 23) else 1 / 2 ^ nat (23 - e))
           in of_int (roundEven (x / u)) * u)"

datatype f32 = F32 (val: real)

instantiation f32 :: "{zero,one,plus,minus,uminus,times,inverse,ord}"
begin

definition zero_f32 :: f32 where "zero_f32 = F32 0"
definition one_f32 :: f32 where "one_f32 = F32 1"
definition plus_f32 :: "f32 \<Rightarrow> f32 \<Rightarrow> f32" where "plus_f32 a b = F32 (round32 (val a + val b))"
definition minus_f32 :: "f32 \<Rightarrow> f32 \<Rightarrow> f32" where "minus_f32 a b = F32 (round32 (val a - val b))"
definition uminus_f32 :: "f32 \<Rightarrow> f32" where "uminus_f32 a = F32 (- val a)"
definition times_f32 :: "f32 \<Rightarrow> f32 \<Rightarrow> f32" where "times_f32 a b = F32 (round32 (val a * val b))"
definition divide_f32 :: "f32 \<Rightarrow> f32 \<Rightarrow> f32" where "divide_f32 a b = F32 (round32 (val a / val b))"
definition inverse_f32 :: "f32 \<Rightarrow> f32" where "inverse_f32 a = F32 (round32 (1 / val a))"
definition less_eq_f32 :: "f32 \<Rightarrow> f32 \<Rightarrow> bool" where "less_eq_f32 a b \<longleftrightarrow> val a \<le> val b"
definition less_f32 :: "f32 \<Rightarrow> f32 \<Rightarrow> bool" where "less_f32 a b \<longleftrightarrow> val a < val b"

instance ..

end

declare bitLength.simps [simp del]

section \<open>The fit test\<close>

lemmas geom_defs = vadd_def vsub_def vscale_def Center_def HalfSize_def Size_def

lemma half_eq [simp]: "(half :: 'a::linordered_field) = 1 / 2"
  by (simp add: half_def)

lemma DEFAULT_OCTREE_SIZE_eq [simp]: "(DEFAULT_OCTREE_SIZE :: 'a::linordered_field) = 1000"
  by (simp add: DEFAULT_OCTREE_SIZE_def Let_def)

text \<open>
  C5 (as stated, refuted). In the octant \<open>[-4,4]\<^sup>3\<close> of level 2, the point box at
  \<open>(-6,0,0)\<close> only touches the expanded region of its would-be child: none of the
  three cases of the specification applies, yet FitBoundingBox returns true. Every number
  that occurs (4, 8, 2, 6, 0) and every intermediate result is a small multiple of a
  power of two, so the computation is the same in binary32 and in exact arithmetic.
\<close>

theorem C5_fit_counterexample:
  "FitBoundingBox (Initialize None (BoundingBox (Vector3 (-4) (-4) (-4)) (Vector3 4 4 4)) 2 Octant_new)
       (BoundingBox (Vector3 (-6) 0 0) (Vector3 (-6) 0 0)) (Vector3 0 0 (0::rat))
   \<noteq> fitAsSpecified (Initialize None (BoundingBox (Vector3 (-4) (-4) (-4)) (Vector3 4 4 4)) 2 Octant_new)
       (BoundingBox (Vector3 (-6) 0 0) (Vector3 (-6) 0 0)) (Vector3 0 0 (0::rat))"
  by (simp add: FitBoundingBox_def fitAsSpecified_def wouldBeChild_def Initialize_def Octant_new_def
      childBox_def ChildIndex_def geom_defs Let_def)

text \<open>
  C5 (amended). For every octant, every box and every box size, in every arithmetic (that
  of binary32 included), FitBoundingBox returns true exactly when (a) the level is at
  most 1, or (b) the box size on some axis is at least the octant's stored half-size on
  that axis, or (c) on some axis the box minimum is at or below the octant's own
  world-box minimum less 0.5 times the stored half-size, or the box maximum is at or
  above the octant's own world-box maximum plus 0.5 times the stored half-size, both
  thresholds as the code's arithmetic computes them.
\<close>

theorem C5_fit_amended:
  "FitBoundingBox oc box boxSize = fitAmended oc box boxSize"
  unfolding FitBoundingBox_def fitAmended_def fitRegion_def Let_def by auto

text \<open>
  In exact arithmetic, for an octant whose derived fields are those Initialize computes,
  the faces of that region are the outer faces of the expanded regions of the would-be
  children.
\<close>

lemma fitRegion_hull:
  fixes oc :: "'a::linordered_field Octant"
  assumes "derived oc"
  shows "fitRegion oc = childrenCullingHull oc"
  using assms
  by (simp add: fitRegion_def childrenCullingHull_def derived_def Initialize_def childBox_def
      geom_defs Let_def field_simps)

section \<open>Removal of an object that is in no octant\<close>

lemma RemoveNodeFrom_absent:
  "p = None \<or> (\<exists>a oc. p = Some a \<and> octs s a = Some oc \<and> n \<notin> set (nodes oc))
   \<Longrightarrow> RemoveNodeFrom s n p = Some s"
  by (auto simp: RemoveNodeFrom_def)

text \<open>
  RemoveNode on an object whose back-reference is null, or that is not in the object
  list of the octant it refers to, returns with the octant memory (every object list,
  count and children array) unchanged; the object's back-reference is null afterwards
  and no other object changes. The queue changes only when the object's queued flag is
  set, and then only at the first entry that names the object, which becomes null.
\<close>

lemma tombstone_eq:
  "tombstone n q = q[length (takeWhile (\<lambda>e. e \<noteq> Some n) q) := None]"
  by (induction q) auto

lemma RemoveNode_absent:
  assumes "octant (objs s n) = None \<or>
           (\<exists>a oc. octant (objs s n) = Some a \<and> octs s a = Some oc \<and> n \<notin> set (nodes oc))"
  shows "\<exists>s'. RemoveNode n s = Some s' \<and> octs s' = octs s \<and>
              sortDirtyOctants s' = sortDirtyOctants s \<and>
              objs s' = (objs s)(n := (objs s n)\<lparr>octant := None, updateQueued := False\<rparr>) \<and>
              updateQueue s' =
                (if updateQueued (objs s n)
                 then (updateQueue s)[length (takeWhile (\<lambda>e. e \<noteq> Some n) (updateQueue s)) := None]
                 else updateQueue s)"
proof -
  have "RemoveNodeFrom s n (octant (objs s n)) = Some s"
    using assms by (intro RemoveNodeFrom_absent) auto
  then show ?thesis
    by (auto simp: RemoveNode_def CancelUpdate_def Let_def fun_eq_iff tombstone_eq)
qed

section \<open>The loops over the parent chain\<close>

lemma incNumNodes_None: "incNumNodes s None = Some s"
  by (simp add: incNumNodes.simps)

lemma decNumNodes_None: "decNumNodes s None = Some s"
  by (simp add: decNumNodes.simps)

lemma chainOK_tl: "chainOK m (i # p) \<Longrightarrow> chainOK m p"
  by (simp add: chainOK_def suffix_Cons)

lemma chainOK_self:
  "chainOK m a \<Longrightarrow> \<exists>oc. m a = Some oc \<and> parent oc = (case a of [] \<Rightarrow> None | j # q \<Rightarrow> Some q)"
  unfolding chainOK_def by (drule spec [of _ a]) auto

lemma chainOK_cong:
  assumes "chainOK m a" and eq: "\<And>b. suffix b a \<Longrightarrow> m' b = m b"
  shows "chainOK m' a"
  unfolding chainOK_def
proof (intro allI impI)
  fix b assume b: "suffix b a"
  from assms(1) b obtain oc where oc: "m b = Some oc"
    "parent oc = (case b of [] \<Rightarrow> None | j # q \<Rightarrow> Some q)"
    "\<forall>j q. b = j # q \<longrightarrow>
       (\<exists>qoc. m q = Some qoc \<and> children qoc j = Some b \<and> ChildIndex qoc (center oc) = j)"
    unfolding chainOK_def by meson
  have "\<forall>j q. b = j # q \<longrightarrow> m' q = m q"
    using b eq by (auto dest: suffix_ConsD)
  with oc eq [OF b]
  show "\<exists>oc. m' b = Some oc \<and> parent oc = (case b of [] \<Rightarrow> None | j # q \<Rightarrow> Some q) \<and>
           (\<forall>j q. b = j # q \<longrightarrow>
              (\<exists>qoc. m' q = Some qoc \<and> children qoc j = Some b \<and> ChildIndex qoc (center oc) = j))"
    by simp
qed

lemma incNumNodes_chain:
  "chainOK (octs s) a \<Longrightarrow> incNumNodes s (Some a) = Some (s\<lparr>octs := chainAdd (octs s) a 1\<rparr>)"
proof (induction a arbitrary: s)
  case Nil
  then obtain oc where oc: "octs s [] = Some oc" "parent oc = None"
    by (auto dest: chainOK_self)
  have "chainAdd (octs s) [] 1 = (octs s)([] \<mapsto> oc\<lparr>numNodes := numNodes oc + 1\<rparr>)"
    using oc by (auto simp: chainAdd_def fun_eq_iff)
  then show ?case using oc
    by (subst incNumNodes.simps) (simp add: incNumNodes_None)
next
  case (Cons i p)
  then obtain oc where oc: "octs s (i # p) = Some oc" "parent oc = Some p"
    by (auto dest: chainOK_self)
  let ?s1 = "s\<lparr>octs := (octs s)(i # p \<mapsto> oc\<lparr>numNodes := numNodes oc + 1\<rparr>)\<rparr>"
  have "chainOK (octs s) p" using Cons.prems by (rule chainOK_tl)
  then have pre: "chainOK (octs ?s1) p"
    by (rule chainOK_cong) (auto dest: suffix_length_le)
  have eq: "chainAdd (octs ?s1) p 1 = chainAdd (octs s) (i # p) 1"
    using oc by (auto simp: chainAdd_def fun_eq_iff suffix_Cons dest: suffix_length_le)
  have "incNumNodes s (Some (i # p)) = incNumNodes ?s1 (Some p)"
    using oc by (subst incNumNodes.simps) simp
  also have "\<dots> = Some (?s1\<lparr>octs := chainAdd (octs ?s1) p 1\<rparr>)"
    by (rule Cons.IH [OF pre])
  also have "\<dots> = Some (s\<lparr>octs := chainAdd (octs s) (i # p) 1\<rparr>)"
    unfolding eq by simp
  finally show ?case .
qed


lemma chainOK_cong2:
  assumes "chainOK m a" and eq: "\<And>b. suffix b a \<Longrightarrow> b \<noteq> a \<Longrightarrow> m' b = m b"
    and top: "m' a = map_option (\<lambda>oc. oc\<lparr>children := f oc\<rparr>) (m a)"
  shows "chainOK m' a"
  unfolding chainOK_def
proof (intro allI impI)
  fix b assume b: "suffix b a"
  from assms(1) b obtain oc where oc: "m b = Some oc"
    "parent oc = (case b of [] \<Rightarrow> None | j # q \<Rightarrow> Some q)"
    "\<forall>j q. b = j # q \<longrightarrow>
       (\<exists>qoc. m q = Some qoc \<and> children qoc j = Some b \<and> ChildIndex qoc (center oc) = j)"
    unfolding chainOK_def by meson
  have q: "\<forall>j q. b = j # q \<longrightarrow> m' q = m q"
  proof (intro allI impI)
    fix j q assume "b = j # q"
    then have "suffix q a" "q \<noteq> a" using b by (auto dest: suffix_ConsD suffix_length_le)
    then show "m' q = m q" by (rule eq)
  qed
  show "\<exists>oc. m' b = Some oc \<and> parent oc = (case b of [] \<Rightarrow> None | j # q \<Rightarrow> Some q) \<and>
           (\<forall>j q. b = j # q \<longrightarrow>
              (\<exists>qoc. m' q = Some qoc \<and> children qoc j = Some b \<and> ChildIndex qoc (center oc) = j))"
  proof (cases "b = a")
    case True
    then show ?thesis using oc q top by simp
  next
    case False
    then show ?thesis using oc q eq [OF b] by simp
  qed
qed

lemma chainOK_parent:
  "chainOK m (i # p) \<Longrightarrow> \<exists>oc qoc. m (i # p) = Some oc \<and> parent oc = Some p \<and> m p = Some qoc \<and>
      children qoc i = Some (i # p) \<and> ChildIndex qoc (center oc) = i"
  unfolding chainOK_def by (drule spec [of _ "i # p"]) auto

lemma decNumNodes_chain:
  "chainOK (octs s) a \<Longrightarrow> decNumNodes s (Some a) = Some (s\<lparr>octs := decChain (octs s) a\<rparr>)"
proof (induction a arbitrary: s)
  case Nil
  then obtain oc where oc: "octs s [] = Some oc" "parent oc = None"
    by (auto dest: chainOK_self)
  show ?case
    by (subst decNumNodes.simps) (simp add: oc decNumNodes_None)
next
  case (Cons i p)
  from Cons.prems obtain oc qoc where oc: "octs s (i # p) = Some oc" "parent oc = Some p"
    "octs s p = Some qoc" "children qoc i = Some (i # p)" "ChildIndex qoc (center oc) = i"
    using chainOK_parent [OF Cons.prems] by blast
  have ne: "p \<noteq> i # p" by simp
  have okp: "chainOK (octs s) p" using Cons.prems by (rule chainOK_tl)
  show ?case
  proof (cases "numNodes oc - 1 = 0")
    case True
    let ?m2 = "(octs s)(i # p := None,
                  p := map_option (\<lambda>noc. noc\<lparr>children := (children noc)(i := None)\<rparr>) (octs s p))"
    have pre: "chainOK (octs (s\<lparr>octs := ?m2\<rparr>)) p"
      using okp by (rule chainOK_cong2 [where f = "\<lambda>noc. (children noc)(i := None)"])
        (auto dest: suffix_length_le)
    have "decNumNodes s (Some (i # p)) = decNumNodes (s\<lparr>octs := ?m2\<rparr>) (Some p)"
      by (subst decNumNodes.simps) (simp add: oc True DeleteChildOctant_def)
    also have "\<dots> = Some (s\<lparr>octs := ?m2\<rparr>\<lparr>octs := decChain (octs (s\<lparr>octs := ?m2\<rparr>)) p\<rparr>)"
      by (rule Cons.IH [OF pre])
    also have "\<dots> = Some (s\<lparr>octs := decChain (octs s) (i # p)\<rparr>)"
      by (simp add: oc True)
    finally show ?thesis .
  next
    case False
    then have F: "numNodes oc \<noteq> 1" by simp
    let ?m1 = "(octs s)(i # p \<mapsto> oc\<lparr>numNodes := numNodes oc - 1\<rparr>)"
    have pre: "chainOK (octs (s\<lparr>octs := ?m1\<rparr>)) p"
      using okp by (rule chainOK_cong) (auto dest: suffix_length_le)
    have "decNumNodes s (Some (i # p)) = decNumNodes (s\<lparr>octs := ?m1\<rparr>) (Some p)"
      by (subst decNumNodes.simps) (simp add: oc F)
    also have "\<dots> = Some (s\<lparr>octs := ?m1\<rparr>\<lparr>octs := decChain (octs (s\<lparr>octs := ?m1\<rparr>)) p\<rparr>)"
      by (rule Cons.IH [OF pre])
    also have "\<dots> = Some (s\<lparr>octs := decChain (octs s) (i # p)\<rparr>)"
      by (simp add: oc F)
    finally show ?thesis .
  qed
qed

section \<open>Counting the objects of a branch\<close>

lemma nodesOf_notdom: "m b = None \<Longrightarrow> nodesOf m b = []"
  by (simp add: nodesOf_def)

lemma nodesOf_Some: "m b = Some oc \<Longrightarrow> nodesOf m b = nodes oc"
  by (simp add: nodesOf_def)

lemma cnt_alt:
  assumes "finite D" "dom m \<subseteq> D"
  shows "cnt m a = (\<Sum>b\<in>{b \<in> D. suffix a b}. int (length (nodesOf m b)))"
  unfolding cnt_def
proof (rule sum.mono_neutral_left)
  show "finite {b \<in> D. suffix a b}" using assms by simp
  show "{b \<in> dom m. suffix a b} \<subseteq> {b \<in> D. suffix a b}" using assms by auto
  show "\<forall>i\<in>{b \<in> D. suffix a b} - {b \<in> dom m. suffix a b}. int (length (nodesOf m i)) = 0"
    by (auto simp: nodesOf_def split: option.splits)
qed

lemma cnt_eq:
  assumes "finite (dom m)" "finite (dom m')" "nodesOf m' = nodesOf m"
  shows "cnt m' a = cnt m a"
proof -
  have "cnt m' a = (\<Sum>b\<in>{b \<in> dom m \<union> dom m'. suffix a b}. int (length (nodesOf m' b)))"
    using assms by (intro cnt_alt) auto
  moreover have "cnt m a = (\<Sum>b\<in>{b \<in> dom m \<union> dom m'. suffix a b}. int (length (nodesOf m b)))"
    using assms by (intro cnt_alt) auto
  ultimately show ?thesis using assms(3) by simp
qed

lemma cnt_upd:
  assumes "finite (dom m)" "finite (dom m')" "nodesOf m' = (nodesOf m)(c := xs)"
  shows "cnt m' a = cnt m a + (if suffix a c then int (length xs) - int (length (nodesOf m c)) else 0)"
proof -
  let ?D = "insert c (dom m \<union> dom m')"
  let ?S = "{b \<in> ?D. suffix a b}"
  have fin: "finite ?S" using assms by simp
  have 1: "cnt m' a = (\<Sum>b\<in>?S. int (length (nodesOf m' b)))"
    using assms by (intro cnt_alt) auto
  have 2: "cnt m a = (\<Sum>b\<in>?S. int (length (nodesOf m b)))"
    using assms by (intro cnt_alt) auto
  show ?thesis
  proof (cases "suffix a c")
    case True
    then have c: "c \<in> ?S" by simp
    have "(\<Sum>b\<in>?S. int (length (nodesOf m' b))) =
          int (length (nodesOf m' c)) + (\<Sum>b\<in>?S - {c}. int (length (nodesOf m' b)))"
      using fin c by (rule sum.remove)
    moreover have "(\<Sum>b\<in>?S. int (length (nodesOf m b))) =
          int (length (nodesOf m c)) + (\<Sum>b\<in>?S - {c}. int (length (nodesOf m b)))"
      using fin c by (rule sum.remove)
    moreover have "(\<Sum>b\<in>?S - {c}. int (length (nodesOf m' b))) = (\<Sum>b\<in>?S - {c}. int (length (nodesOf m b)))"
      by (rule sum.cong) (auto simp: assms(3))
    ultimately show ?thesis using True 1 2 by (simp add: assms(3))
  next
    case False
    have "(\<Sum>b\<in>?S. int (length (nodesOf m' b))) = (\<Sum>b\<in>?S. int (length (nodesOf m b)))"
      using False by (intro sum.cong) (auto simp: assms(3))
    then show ?thesis using False 1 2 by simp
  qed
qed

lemma cnt_nonneg: "0 \<le> cnt m a"
  unfolding cnt_def by (rule sum_nonneg) simp

lemma cnt_mono:
  assumes "finite (dom m)" "suffix a b"
  shows "cnt m b \<le> cnt m a"
  unfolding cnt_def
proof (rule sum_mono2)
  show "finite {b \<in> dom m. suffix a b}" using assms by simp
  show "{ba \<in> dom m. suffix b ba} \<subseteq> {b \<in> dom m. suffix a b}"
    using assms(2) by (auto intro: suffix_order.trans)
qed simp

lemma cnt_ge_nodes:
  assumes "finite (dom m)"
  shows "int (length (nodesOf m a)) \<le> cnt m a"
proof (cases "m a")
  case None
  then show ?thesis using cnt_nonneg [of m a] by (simp add: nodesOf_def)
next
  case (Some oc)
  have "(\<Sum>b\<in>{a}. int (length (nodesOf m b))) \<le> (\<Sum>b\<in>{b \<in> dom m. suffix a b}. int (length (nodesOf m b)))"
    using assms Some by (intro sum_mono2) auto
  then show ?thesis by (simp add: cnt_def)
qed

lemma cnt_zero_nodes:
  assumes "finite (dom m)" "cnt m a = 0" "suffix a b"
  shows "nodesOf m b = []"
proof -
  have "int (length (nodesOf m b)) \<le> cnt m b" using assms(1) by (rule cnt_ge_nodes)
  also have "\<dots> \<le> cnt m a" using assms(1,3) by (rule cnt_mono)
  finally show ?thesis using assms(2) by simp
qed

section \<open>Memories of the same shape\<close>

lemma sameShape_at:
  "sameShape m m' \<Longrightarrow>
     (m a = None \<longleftrightarrow> m' a = None) \<and>
     (\<forall>oc oc'. m a = Some oc \<longrightarrow> m' a = Some oc' \<longrightarrow>
        geomPart oc' = geomPart oc \<and> parent oc' = parent oc \<and> children oc' = children oc)"
  unfolding sameShape_def by (erule allE [of _ a])

lemma sameShape_live: "sameShape m m' \<Longrightarrow> (m' a \<noteq> None) = (m a \<noteq> None)"
  by (drule sameShape_at [of _ _ a]) simp

lemma sameShape_SomeD:
  "sameShape m m' \<Longrightarrow> m' a = Some oc' \<Longrightarrow>
     \<exists>oc. m a = Some oc \<and> geomPart oc' = geomPart oc \<and> parent oc' = parent oc \<and> children oc' = children oc"
  by (drule sameShape_at [of _ _ a]) (cases "m a"; simp)

lemma sameShape_SomeD2:
  "sameShape m m' \<Longrightarrow> m a = Some oc \<Longrightarrow>
     \<exists>oc'. m' a = Some oc' \<and> geomPart oc' = geomPart oc \<and> parent oc' = parent oc \<and> children oc' = children oc"
  by (drule sameShape_at [of _ _ a]) (cases "m' a"; simp)

lemma sameShape_dom: "sameShape m m' \<Longrightarrow> dom m' = dom m"
  by (auto simp: dom_def dest: sameShape_SomeD sameShape_SomeD2)

lemma treeD_fin: "tree m \<Longrightarrow> finite (dom m)"
  by (simp add: tree_def)

lemma treeD_root: "tree m \<Longrightarrow> \<exists>oc. m root = Some oc"
  by (simp add: tree_def)

lemma treeD_up: "tree m \<Longrightarrow> m (i # a) = Some oc \<Longrightarrow> \<exists>poc. m a = Some poc \<and> children poc i = Some (i # a)"
proof -
  assume t: "tree m" and l: "m (i # a) = Some oc"
  from t have "\<forall>a i. m (i # a) \<noteq> None \<longrightarrow> (\<exists>oc. m a = Some oc \<and> children oc i = Some (i # a))"
    unfolding tree_def by (elim conjE)
  then have "m (i # a) \<noteq> None \<longrightarrow> (\<exists>oc. m a = Some oc \<and> children oc i = Some (i # a))"
    by (elim allE)
  with l show ?thesis by simp
qed

lemma treeD_slot: "tree m \<Longrightarrow> m a = Some oc \<Longrightarrow> children oc i = Some c \<Longrightarrow> c = i # a \<and> (\<exists>coc. m c = Some coc)"
proof -
  assume t: "tree m" and l: "m a = Some oc" "children oc i = Some c"
  from t have "\<forall>a oc i c. m a = Some oc \<longrightarrow> children oc i = Some c \<longrightarrow> c = i # a \<and> m c \<noteq> None"
    unfolding tree_def by (elim conjE)
  then have "m a = Some oc \<longrightarrow> children oc i = Some c \<longrightarrow> c = i # a \<and> m c \<noteq> None"
    by (elim allE)
  with l show ?thesis by blast
qed

lemma treeD_parent: "tree m \<Longrightarrow> m a = Some oc \<Longrightarrow> parent oc = (case a of [] \<Rightarrow> None | i # p \<Rightarrow> Some p)"
proof -
  assume t: "tree m" and l: "m a = Some oc"
  from t have "\<forall>a oc. m a = Some oc \<longrightarrow> parent oc = (case a of [] \<Rightarrow> None | i # p \<Rightarrow> Some p)"
    unfolding tree_def by (elim conjE)
  then have "m a = Some oc \<longrightarrow> parent oc = (case a of [] \<Rightarrow> None | i # p \<Rightarrow> Some p)"
    by (elim allE)
  with l show ?thesis by simp
qed

lemma treeI:
  assumes "finite (dom m)" "\<exists>oc. m root = Some oc"
    "\<And>a i oc. m (i # a) = Some oc \<Longrightarrow> \<exists>poc. m a = Some poc \<and> children poc i = Some (i # a)"
    "\<And>a oc i c. m a = Some oc \<Longrightarrow> children oc i = Some c \<Longrightarrow> c = i # a \<and> (\<exists>coc. m c = Some coc)"
    "\<And>a oc. m a = Some oc \<Longrightarrow> parent oc = (case a of [] \<Rightarrow> None | i # p \<Rightarrow> Some p)"
  shows "tree m"
  unfolding tree_def
proof (intro conjI allI impI)
  show "finite (dom m)" by fact
  show "m root \<noteq> None" using assms(2) by auto
  fix a i assume "m (i # a) \<noteq> None"
  then obtain oc where "m (i # a) = Some oc" by auto
  then show "\<exists>oc. m a = Some oc \<and> children oc i = Some (i # a)" by (rule assms(3))
next
  fix a oc i c assume "m a = Some oc" "children oc i = Some c"
  from assms(4) [OF this] show "c = i # a" "m c \<noteq> None" by auto
next
  fix a oc assume "m a = Some oc"
  then show "parent oc = (case a of [] \<Rightarrow> None | i # p \<Rightarrow> Some p)" by (rule assms(5))
qed

lemma tree_sameShape:
  assumes t: "tree m" and s: "sameShape m m'"
  shows "tree m'"
proof (rule treeI)
  show "finite (dom m')" using t s by (simp add: sameShape_dom treeD_fin)
  from treeD_root [OF t] obtain oc where "m root = Some oc" by auto
  from sameShape_SomeD2 [OF s this] show "\<exists>oc. m' root = Some oc" by auto
next
  fix a i oc' assume "m' (i # a) = Some oc'"
  from sameShape_SomeD [OF s this] obtain oc0 where "m (i # a) = Some oc0" by auto
  from treeD_up [OF t this] obtain oc where oc: "m a = Some oc" "children oc i = Some (i # a)"
    by auto
  from sameShape_SomeD2 [OF s oc(1)] oc(2)
  show "\<exists>oc. m' a = Some oc \<and> children oc i = Some (i # a)" by auto
next
  fix a oc' i c assume a: "m' a = Some oc'" "children oc' i = Some c"
  from sameShape_SomeD [OF s a(1)] obtain oc where oc: "m a = Some oc" "children oc' = children oc"
    by auto
  from treeD_slot [OF t oc(1), of i c] a(2) oc(2) obtain coc where c: "c = i # a" "m c = Some coc"
    by auto
  from sameShape_SomeD2 [OF s c(2)] c(1) show "c = i # a \<and> (\<exists>coc. m' c = Some coc)" by auto
next
  fix a oc' assume a: "m' a = Some oc'"
  from sameShape_SomeD [OF s a] obtain oc where oc: "m a = Some oc" "parent oc' = parent oc"
    by auto
  then show "parent oc' = (case a of [] \<Rightarrow> None | i # p \<Rightarrow> Some p)"
    using treeD_parent [OF t oc(1)] by simp
qed

lemma geoD_derived: "geo m \<Longrightarrow> m a = Some oc \<Longrightarrow> derived oc"
  unfolding geo_def by (erule allE [of _ a], erule allE [of _ oc]) simp

lemma geoD_child:
  "geo m \<Longrightarrow> m (i # p) = Some oc \<Longrightarrow>
     \<exists>poc. m p = Some poc \<and> posSize poc \<and> worldBoundingBox oc = childBox poc i \<and>
           level oc = level poc - 1 \<and> ChildIndex poc (center oc) = i"
  unfolding geo_def by (erule allE [of _ "i # p"], erule allE [of _ oc]) simp

lemma geoI:
  assumes "\<And>a oc. m a = Some oc \<Longrightarrow> derived oc"
    "\<And>i p oc. m (i # p) = Some oc \<Longrightarrow>
       \<exists>poc. m p = Some poc \<and> posSize poc \<and> worldBoundingBox oc = childBox poc i \<and>
           level oc = level poc - 1 \<and> ChildIndex poc (center oc) = i"
  shows "geo m"
  unfolding geo_def using assms by blast

lemma geomPart_eq:
  "geomPart oc' = geomPart oc \<Longrightarrow> worldBoundingBox oc' = worldBoundingBox oc \<and> cullingBox oc' = cullingBox oc \<and>
     center oc' = center oc \<and> halfSize oc' = halfSize oc \<and> level oc' = level oc"
  by (simp add: geomPart_def)

lemma geomPart_props:
  assumes "geomPart oc' = geomPart oc"
  shows "derived oc' = derived oc" "posSize oc' = posSize oc" "childBox oc' i = childBox oc i"
    "ChildIndex oc' v = ChildIndex oc v" "FitBoundingBox oc' b sz = FitBoundingBox oc b sz"
  using geomPart_eq [OF assms]
  by (simp_all add: derived_def posSize_def childBox_def ChildIndex_def FitBoundingBox_def)

lemma geo_sameShape:
  assumes g: "geo m" and s: "sameShape m m'"
  shows "geo m'"
proof (rule geoI)
  fix a oc' assume a: "m' a = Some oc'"
  from sameShape_SomeD [OF s a] obtain oc where oc: "m a = Some oc" "geomPart oc' = geomPart oc"
    by auto
  show "derived oc'" using geoD_derived [OF g oc(1)] by (simp add: geomPart_props [OF oc(2)])
next
  fix i p oc' assume a: "m' (i # p) = Some oc'"
  from sameShape_SomeD [OF s a] obtain oc where oc: "m (i # p) = Some oc" "geomPart oc' = geomPart oc"
    by auto
  from geoD_child [OF g oc(1)] obtain poc where poc: "m p = Some poc" "posSize poc"
    "worldBoundingBox oc = childBox poc i" "level oc = level poc - 1" "ChildIndex poc (center oc) = i"
    by auto
  from sameShape_SomeD2 [OF s poc(1)] obtain poc' where poc': "m' p = Some poc'" "geomPart poc' = geomPart poc"
    by auto
  show "\<exists>poc. m' p = Some poc \<and> posSize poc \<and> worldBoundingBox oc' = childBox poc i \<and>
              level oc' = level poc - 1 \<and> ChildIndex poc (center oc') = i"
    using poc poc' geomPart_eq [OF oc(2)] geomPart_eq [OF poc'(2)]
    by (simp add: geomPart_props [OF poc'(2)])
qed

lemma sameShape_upd:
  assumes "m a = Some oc" "geomPart oc' = geomPart oc" "parent oc' = parent oc" "children oc' = children oc"
  shows "sameShape m (m(a \<mapsto> oc'))"
  using assms unfolding sameShape_def by auto

lemma sameShape_refl: "sameShape m m"
  unfolding sameShape_def by auto

lemma sameShape_trans:
  assumes "sameShape m m1" "sameShape m1 m2"
  shows "sameShape m m2"
  unfolding sameShape_def
proof (intro allI conjI impI)
  fix a show "(m a = None) = (m2 a = None)"
    using sameShape_live [OF assms(1), of a] sameShape_live [OF assms(2), of a] by auto
next
  fix a oc oc2 assume a: "m a = Some oc" "m2 a = Some oc2"
  from sameShape_SomeD2 [OF assms(1) a(1)] obtain oc1 where
    1: "m1 a = Some oc1" "geomPart oc1 = geomPart oc" "parent oc1 = parent oc" "children oc1 = children oc"
    by auto
  from sameShape_SomeD2 [OF assms(2) 1(1)] a(2) have
    2: "geomPart oc2 = geomPart oc1" "parent oc2 = parent oc1" "children oc2 = children oc1"
    by auto
  show "geomPart oc2 = geomPart oc" "parent oc2 = parent oc" "children oc2 = children oc"
    using 1 2 by simp_all
qed

lemma sameShape_chainAdd: "sameShape m (chainAdd m a k)"
  unfolding sameShape_def chainAdd_def by (auto simp: geomPart_def)

section \<open>Creating a child octant\<close>

lemma tree_dead_below:
  assumes t: "tree m" and d: "m b = None"
  shows "suffix b d \<Longrightarrow> m d = None"
proof (induction d)
  case Nil
  then show ?case using d by simp
next
  case (Cons j q)
  show ?case
  proof (cases "b = j # q")
    case True
    then show ?thesis using d by simp
  next
    case False
    with Cons.prems have "suffix b q" by (simp add: suffix_Cons)
    then have q: "m q = None" by (rule Cons.IH)
    show ?thesis
    proof (cases "m (j # q)")
      case None then show ?thesis .
    next
      case (Some oc)
      from treeD_up [OF t Some] q show ?thesis by simp
    qed
  qed
qed

lemma ChildIndex_lt8: "ChildIndex oc v < 8"
  by (simp add: ChildIndex_def)

lemma bits_lt8:
  "i < 8 \<Longrightarrow> (if odd i then 1 else 0) + (if odd (i div 2) then 2 else 0) + (if odd (i div 4) then 4 else 0) = (i::nat)"
proof -
  assume "i < 8"
  then have "i = 0 \<or> i = 1 \<or> i = 2 \<or> i = 3 \<or> i = 4 \<or> i = 5 \<or> i = 6 \<or> i = 7" by arith
  then show ?thesis by (elim disjE) simp_all
qed

lemma ChildIndex_childBox:
  assumes i: "i < 8" and d: "derived oc" and p: "posSize oc"
  shows "ChildIndex oc (Center (childBox oc i)) = i"
proof -
  let ?w = "worldBoundingBox oc"
  have h: "halfSize oc = HalfSize ?w" and c: "center oc = Center ?w"
    using d by (simp_all add: derived_def)
  have x: "vx (bmin ?w) < vx (bmax ?w)" and y: "vy (bmin ?w) < vy (bmax ?w)"
    and z: "vz (bmin ?w) < vz (bmax ?w)"
    using p unfolding posSize_def h by (simp_all add: geom_defs)
  have bx: "(vx (Center (childBox oc i)) < vx (center oc)) = (\<not> odd i)"
    using x by (auto simp: childBox_def c geom_defs Let_def field_simps)
  have by': "(vy (Center (childBox oc i)) < vy (center oc)) = (\<not> odd (i div 2))"
    using y by (auto simp: childBox_def c geom_defs Let_def field_simps)
  have bz: "(vz (Center (childBox oc i)) < vz (center oc)) = (\<not> odd (i div 4))"
    using z by (auto simp: childBox_def c geom_defs Let_def field_simps)
  have "ChildIndex oc (Center (childBox oc i)) =
     (if odd i then 1 else 0) + (if odd (i div 2) then 2 else 0) + (if odd (i div 4) then 4 else 0)"
    unfolding ChildIndex_def bx by' bz by simp
  then show ?thesis using bits_lt8 [OF i] by simp
qed

lemma derived_Initialize: "derived (Initialize p b l oc)"
  by (simp add: derived_def Initialize_def Let_def)

lemma Initialize_fields:
  "worldBoundingBox (Initialize p b l oc) = b" "level (Initialize p b l oc) = l"
  "parent (Initialize p b l oc) = p" "children (Initialize p b l oc) = children oc"
  "nodes (Initialize p b l oc) = nodes oc" "numNodes (Initialize p b l oc) = numNodes oc"
  "sortDirty (Initialize p b l oc) = sortDirty oc" "center (Initialize p b l oc) = Center b"
  "halfSize (Initialize p b l oc) = HalfSize b"
  by (simp_all add: Initialize_def Let_def)

lemma CreateChildOctant_eq:
  "octs s a = Some oc \<Longrightarrow>
   CreateChildOctant s a i = Some (s\<lparr>octs := fst (createChild (octs s) a i)\<rparr>, snd (createChild (octs s) a i))"
  by (cases "children oc i") (simp_all add: CreateChildOctant_def createChild_def Let_def)

lemma createChild_old:
  "m a = Some oc \<Longrightarrow> children oc i = Some c \<Longrightarrow> createChild m a i = (m, c)"
  by (simp add: createChild_def)

lemma createChild_new:
  "m a = Some oc \<Longrightarrow> children oc i = None \<Longrightarrow>
   createChild m a i =
     (m(i # a \<mapsto> Initialize (Some a) (childBox oc i) (level oc - 1) Octant_new,
        a \<mapsto> oc\<lparr>children := (children oc)(i := Some (i # a))\<rparr>), i # a)"
  by (simp add: createChild_def)

lemma tree_slot_dead:
  assumes t: "tree m" and a: "m a = Some oc" and n: "children oc i = None"
  shows "m (i # a) = None"
proof (cases "m (i # a)")
  case None then show ?thesis .
next
  case (Some x)
  from treeD_up [OF t Some] a n show ?thesis by simp
qed

lemma notself: "a \<noteq> i # a" "i # a \<noteq> a" "a \<noteq> j # i # a"
  by (induction a) auto

lemma tree_createChild_new:
  assumes t: "tree m" and a: "m a = Some oc" and n: "children oc i = None"
  defines "m' \<equiv> m(i # a \<mapsto> Initialize (Some a) (childBox oc i) (level oc - 1) Octant_new,
                   a \<mapsto> oc\<lparr>children := (children oc)(i := Some (i # a))\<rparr>)"
  shows "tree m'"
proof (rule treeI)
  have dead: "m (i # a) = None" using t a n by (rule tree_slot_dead)
  show "finite (dom m')" using treeD_fin [OF t] by (simp add: m'_def)
  show "\<exists>oc. m' root = Some oc" using treeD_root [OF t] by (auto simp: m'_def root_def)
  {
    fix b j x assume l: "m' (j # b) = Some x"
    show "\<exists>poc. m' b = Some poc \<and> children poc j = Some (j # b)"
    proof (cases "j # b = i # a")
      case True
      then show ?thesis by (simp add: m'_def)
    next
      case False
      then have "\<exists>y. m (j # b) = Some y" using l a by (auto simp: m'_def split: if_splits)
      then obtain y where y: "m (j # b) = Some y" ..
      from treeD_up [OF t y] obtain poc where poc: "m b = Some poc" "children poc j = Some (j # b)"
        by auto
      have nb: "b \<noteq> i # a" using poc dead by auto
      show ?thesis
      proof (cases "b = a")
        case True
        then have "j \<noteq> i" using False by simp
        then show ?thesis using True poc a by (simp add: m'_def)
      next
        case False
        then show ?thesis using nb poc by (simp add: m'_def)
      qed
    qed
  }
  {
    fix x xoc j c assume l: "m' x = Some xoc" "children xoc j = Some c"
    show "c = j # x \<and> (\<exists>coc. m' c = Some coc)"
    proof (cases "x = a")
      case True
      then have xoc: "xoc = oc\<lparr>children := (children oc)(i := Some (i # a))\<rparr>"
        using l by (simp add: m'_def)
      show ?thesis
      proof (cases "j = i")
        case True
        then show ?thesis using xoc l \<open>x = a\<close> by (simp add: m'_def notself)
      next
        case False
        then have "children oc j = Some c" using xoc l by simp
        from treeD_slot [OF t a this] show ?thesis using \<open>x = a\<close> by (auto simp: m'_def)
      qed
    next
      case False
      show ?thesis
      proof (cases "x = i # a")
        case True
        then have "xoc = Initialize (Some a) (childBox oc i) (level oc - 1) Octant_new"
          using l by (simp add: m'_def notself)
        then show ?thesis using l by (simp add: Initialize_fields Octant_new_def)
      next
        case F2: False
        then have "m x = Some xoc" using False l by (simp add: m'_def)
        from treeD_slot [OF t this l(2)] show ?thesis by (auto simp: m'_def)
      qed
    qed
  }
  {
    fix x xoc assume l: "m' x = Some xoc"
    show "parent xoc = (case x of [] \<Rightarrow> None | i # p \<Rightarrow> Some p)"
    proof (cases "x = a")
      case True
      then show ?thesis using l treeD_parent [OF t a] by (auto simp: m'_def)
    next
      case False
      show ?thesis
      proof (cases "x = i # a")
        case True
        then show ?thesis using l by (auto simp: m'_def notself Initialize_fields)
      next
        case F2: False
        then have "m x = Some xoc" using False l by (simp add: m'_def)
        then show ?thesis by (rule treeD_parent [OF t])
      qed
    qed
  }
qed

lemma geo_createChild_new:
  assumes t: "tree m" and g: "geo m" and a: "m a = Some oc" and n: "children oc i = None"
    and i: "i < 8" and p: "posSize oc"
  defines "m' \<equiv> m(i # a \<mapsto> Initialize (Some a) (childBox oc i) (level oc - 1) Octant_new,
                   a \<mapsto> oc\<lparr>children := (children oc)(i := Some (i # a))\<rparr>)"
  shows "geo m'"
proof (rule geoI)
  have dead: "m (i # a) = None" using t a n by (rule tree_slot_dead)
  have da: "derived oc" using g a by (rule geoD_derived)
  let ?oc' = "oc\<lparr>children := (children oc)(i := Some (i # a))\<rparr>"
  have gp: "geomPart ?oc' = geomPart oc" by (simp add: geomPart_def)
  {
    fix x xoc assume l: "m' x = Some xoc"
    show "derived xoc"
    proof (cases "x = a")
      case True
      then have "xoc = ?oc'" using l by (simp add: m'_def)
      then show ?thesis using da by (simp add: geomPart_props [OF gp])
    next
      case False
      show ?thesis
      proof (cases "x = i # a")
        case True
        then show ?thesis using l by (auto simp: m'_def notself derived_Initialize)
      next
        case F2: False
        then have "m x = Some xoc" using False l by (simp add: m'_def)
        then show ?thesis by (rule geoD_derived [OF g])
      qed
    qed
  }
  {
    fix j q xoc assume l: "m' (j # q) = Some xoc"
    show "\<exists>poc. m' q = Some poc \<and> posSize poc \<and> worldBoundingBox xoc = childBox poc j \<and>
           level xoc = level poc - 1 \<and> ChildIndex poc (center xoc) = j"
    proof (cases "j # q = i # a")
      case True
      then have x: "xoc = Initialize (Some a) (childBox oc i) (level oc - 1) Octant_new"
        using l by (simp add: m'_def notself)
      have "m' q = Some ?oc'" using True by (simp add: m'_def)
      moreover have "ChildIndex ?oc' (center xoc) = i"
        unfolding x geomPart_props [OF gp] Initialize_fields using i da p by (rule ChildIndex_childBox)
      ultimately show ?thesis using True p
        by (simp add: x Initialize_fields geomPart_props [OF gp])
    next
      case False
      have "\<exists>y. m (j # q) = Some y \<and> geomPart xoc = geomPart y"
        using l a False gp by (auto simp: m'_def split: if_splits)
      then obtain y where y: "m (j # q) = Some y" "geomPart xoc = geomPart y" by auto
      from geoD_child [OF g y(1)] obtain poc where poc: "m q = Some poc" "posSize poc"
        "worldBoundingBox y = childBox poc j" "level y = level poc - 1" "ChildIndex poc (center y) = j"
        by auto
      have nq: "q \<noteq> i # a" using poc dead by auto
      have "\<exists>poc'. m' q = Some poc' \<and> geomPart poc' = geomPart poc"
        using poc(1) nq a gp by (auto simp: m'_def)
      then obtain poc' where poc': "m' q = Some poc'" "geomPart poc' = geomPart poc" by auto
      show ?thesis
        using poc poc'(1) geomPart_eq [OF y(2)] geomPart_eq [OF poc'(2)]
        by (simp add: geomPart_props [OF poc'(2)])
    qed
  }
qed

lemma countsD:
  "counts m X k \<Longrightarrow> m a = Some oc \<Longrightarrow> numNodes oc = cnt m a + (if a \<in> X then k else 0)"
  unfolding counts_def by (erule allE [of _ a], erule allE [of _ oc]) simp

lemma countsI:
  "(\<And>a oc. m a = Some oc \<Longrightarrow> numNodes oc = cnt m a + (if a \<in> X then k else 0)) \<Longrightarrow> counts m X k"
  unfolding counts_def by blast

lemma prunedD: "pruned m E \<Longrightarrow> m a = Some oc \<Longrightarrow> a \<noteq> root \<Longrightarrow> a \<notin> E \<Longrightarrow> 0 < cnt m a"
  unfolding pruned_def by (erule allE [of _ a]) simp

lemma prunedI:
  "(\<And>a oc. m a = Some oc \<Longrightarrow> a \<noteq> root \<Longrightarrow> a \<notin> E \<Longrightarrow> 0 < cnt m a) \<Longrightarrow> pruned m E"
  unfolding pruned_def by auto

lemma pruned_mono: "pruned m E \<Longrightarrow> E \<subseteq> E' \<Longrightarrow> pruned m E'"
  unfolding pruned_def by blast

lemma chain_self: "a \<in> chain a"
  by (simp add: chain_def)

lemma chain_Cons: "chain (i # a) = insert (i # a) (chain a)"
  by (auto simp: chain_def suffix_Cons)

lemma chain_Nil: "chain [] = {[]}"
  by (auto simp: chain_def)

lemma cnt_dead:
  assumes "tree m" "m b = None"
  shows "cnt m b = 0"
proof -
  have e: "{x \<in> dom m. suffix b x} = {}"
    using tree_dead_below [OF assms] by auto
  show ?thesis unfolding cnt_def e by simp
qed

lemma nodesOf_createChild_new:
  assumes a: "m a = Some oc" and dead: "m (i # a) = None"
  shows "nodesOf (m(i # a \<mapsto> Initialize (Some a) (childBox oc i) (level oc - 1) Octant_new,
                   a \<mapsto> oc\<lparr>children := (children oc)(i := Some (i # a))\<rparr>)) = nodesOf m"
  using a dead by (auto simp: nodesOf_def fun_eq_iff Initialize_fields Octant_new_def)

lemma createChild_inv:
  assumes t: "tree m" and g: "geo m" and c: "counts m {} 0" and pr: "pruned m (chain a)"
    and a: "m a = Some oc" and i: "i < 8" and p: "posSize oc"
    and cc: "createChild m a i = (m', c)"
  shows "tree m'" "geo m'" "counts m' {} 0" "pruned m' (chain c)" "nodesOf m' = nodesOf m"
    "c = i # a" "grows m m'" "m' \<noteq> m \<longrightarrow> m c = None"
    "\<exists>coc. m' c = Some coc \<and> level coc = level oc - 1 \<and> worldBoundingBox coc = childBox oc i \<and> derived coc"
proof -
  have "tree m' \<and> geo m' \<and> counts m' {} 0 \<and> pruned m' (chain c) \<and> nodesOf m' = nodesOf m \<and>
    c = i # a \<and> grows m m' \<and> (m' \<noteq> m \<longrightarrow> m c = None) \<and>
    (\<exists>coc. m' c = Some coc \<and> level coc = level oc - 1 \<and> worldBoundingBox coc = childBox oc i \<and> derived coc)"
  proof (cases "children oc i")
    case (Some c')
    from treeD_slot [OF t a Some] obtain coc where c': "c' = i # a" "m c' = Some coc" by auto
    have "(m', c) = (m, c')"
      unfolding cc [symmetric] by (rule createChild_old [of m a oc i c', OF a Some])
    then have eq: "m' = m" "c = c'" by blast+
    from geoD_child [OF g c'(2) [unfolded c'(1)]] a
    have "level coc = level oc - 1 \<and> worldBoundingBox coc = childBox oc i" by auto
    moreover have "derived coc" using g c'(2) by (rule geoD_derived)
    moreover have "pruned m (chain (i # a))"
      using pr by (rule pruned_mono) (auto simp: chain_Cons)
    moreover have "grows m m" by (auto simp: grows_def)
    ultimately show ?thesis using t g c c' eq by simp
  next
    case None
    let ?ch = "Initialize (Some a) (childBox oc i) (level oc - 1) Octant_new"
    let ?m' = "m(i # a \<mapsto> ?ch, a \<mapsto> oc\<lparr>children := (children oc)(i := Some (i # a))\<rparr>)"
    have "(m', c) = (?m', i # a)"
      unfolding cc [symmetric] by (rule createChild_new [of m a oc i, OF a None])
    then have eq: "m' = ?m'" "c = i # a" by blast+
    have dead: "m (i # a) = None" using t a None by (rule tree_slot_dead)
    have t': "tree ?m'" using t a None by (rule tree_createChild_new)
    have g': "geo ?m'" using t g a None i p by (rule geo_createChild_new)
    have n': "nodesOf ?m' = nodesOf m" using a dead by (rule nodesOf_createChild_new)
    have ce: "\<And>b. cnt ?m' b = cnt m b"
      using treeD_fin [OF t'] treeD_fin [OF t] n' by (intro cnt_eq) auto
    have c': "counts ?m' {} 0"
    proof (rule countsI)
      fix b x assume b: "?m' b = Some x"
      show "numNodes x = cnt ?m' b + (if b \<in> {} then 0 else 0)"
      proof (cases "b = i # a")
        case True
        then have "x = ?ch" using b by (simp add: notself)
        then have "numNodes x = 0" by (simp add: Initialize_fields Octant_new_def)
        then show ?thesis using cnt_dead [OF t dead] True ce [of "i # a"] by simp
      next
        case False
        then have "\<exists>y. m b = Some y \<and> numNodes x = numNodes y"
          using b a by (auto split: if_splits)
        then obtain y where "m b = Some y" "numNodes x = numNodes y" by auto
        then show ?thesis using countsD [OF c, of b y] by (simp add: ce)
      qed
    qed
    have p': "pruned ?m' (chain (i # a))"
    proof (rule prunedI)
      fix b x assume b: "?m' b = Some x" "b \<noteq> root" "b \<notin> chain (i # a)"
      then have "b \<noteq> i # a" "b \<notin> chain a" by (auto simp: chain_Cons)
      moreover from this b(1) a have "\<exists>y. m b = Some y" by (auto split: if_splits)
      ultimately show "0 < cnt ?m' b" using prunedD [OF pr _ b(2)] by (auto simp: ce)
    qed
    have gr: "grows m ?m'"
      using dead a by (auto simp: grows_def geomPart_def Initialize_fields Octant_new_def)
    have "\<exists>coc. ?m' (i # a) = Some coc \<and> level coc = level oc - 1 \<and>
        worldBoundingBox coc = childBox oc i \<and> derived coc"
      by (simp add: notself Initialize_fields derived_Initialize)
    then show ?thesis using t' g' c' p' n' gr dead unfolding eq by simp
  qed
  then show "tree m'" "geo m'" "counts m' {} 0" "pruned m' (chain c)" "nodesOf m' = nodesOf m"
    "c = i # a" "grows m m'" "m' \<noteq> m \<longrightarrow> m c = None"
    "\<exists>coc. m' c = Some coc \<and> level coc = level oc - 1 \<and> worldBoundingBox coc = childBox oc i \<and> derived coc"
    by blast+
qed

section \<open>The descent of Update\<close>

lemma not_insertHere_Fit: "\<not> insertHere a oc box \<Longrightarrow> \<not> FitBoundingBox oc box (Size box)"
  by (auto simp: insertHere_def split: if_splits)

lemma not_Fit_level: "\<not> FitBoundingBox oc box sz \<Longrightarrow> 1 < level oc"
  by (auto simp: FitBoundingBox_def split: if_splits)

lemma findOctant_rule:
  fixes I :: "(addr \<Rightarrow> 'f::linordered_field Octant option) \<Rightarrow> addr \<Rightarrow> bool"
  assumes I0: "I (octs s) a"
    and live: "\<And>m a. I m a \<Longrightarrow> \<exists>oc. m a = Some oc"
    and step: "\<And>m a oc m' c. I m a \<Longrightarrow> m a = Some oc \<Longrightarrow> \<not> insertHere a oc box \<Longrightarrow>
        createChild m a (ChildIndex oc (Center box)) = (m', c) \<Longrightarrow>
        I m' c \<and> (\<exists>coc. m' c = Some coc \<and> level coc < level oc)"
  shows "\<exists>m' c oc'. findOctant s a box = Some (s\<lparr>octs := m'\<rparr>, c) \<and> I m' c \<and>
           m' c = Some oc' \<and> insertHere c oc' box"
  using I0
proof (induction "nat (level (the (octs s a)))" arbitrary: s a rule: less_induct)
  case less
  from live [OF less.prems] obtain oc where oc: "octs s a = Some oc" by auto
  show ?case
  proof (cases "insertHere a oc box")
    case True
    have "findOctant s a box = Some (s\<lparr>octs := octs s\<rparr>, a)"
      by (subst findOctant.simps) (simp add: oc True)
    then show ?thesis using less.prems oc True by blast
  next
    case False
    obtain m1 c1 where cc: "createChild (octs s) a (ChildIndex oc (Center box)) = (m1, c1)"
      by (cases "createChild (octs s) a (ChildIndex oc (Center box))") auto
    from step [OF less.prems oc False cc] obtain coc where
      st: "I m1 c1" "m1 c1 = Some coc" "level coc < level oc" by auto
    let ?s1 = "s\<lparr>octs := m1\<rparr>"
    have lv: "1 < level oc" using not_Fit_level [OF not_insertHere_Fit [OF False]] .
    have "nat (level (the (octs ?s1 c1))) < nat (level (the (octs s a)))"
      using st lv oc by simp
    moreover have "I (octs ?s1) c1" using st by simp
    ultimately obtain m' c oc' where r: "findOctant ?s1 c1 box = Some (?s1\<lparr>octs := m'\<rparr>, c)"
      "I m' c" "m' c = Some oc'" "insertHere c oc' box"
      using less.hyps [of ?s1 c1] by blast
    have "findOctant s a box = findOctant ?s1 c1 box"
      by (subst findOctant.simps) (simp add: oc False CreateChildOctant_eq [OF oc] cc)
    then have "findOctant s a box = Some (s\<lparr>octs := m'\<rparr>, c)" using r(1) by simp
    then show ?thesis using r by blast
  qed
qed

section \<open>Placement geometry\<close>

lemma IsInside_INSIDE:
  fixes outer :: "'a::linordered_field BoundingBox"
  shows "IsInside outer b = INSIDE \<longleftrightarrow>
     (vx (bmin outer) \<le> vx (bmin b) \<and> vx (bmax b) \<le> vx (bmax outer) \<and>
      vx (bmin outer) \<le> vx (bmax b) \<and> vx (bmin b) \<le> vx (bmax outer)) \<and>
     (vy (bmin outer) \<le> vy (bmin b) \<and> vy (bmax b) \<le> vy (bmax outer) \<and>
      vy (bmin outer) \<le> vy (bmax b) \<and> vy (bmin b) \<le> vy (bmax outer)) \<and>
     (vz (bmin outer) \<le> vz (bmin b) \<and> vz (bmax b) \<le> vz (bmax outer) \<and>
      vz (bmin outer) \<le> vz (bmax b) \<and> vz (bmin b) \<le> vz (bmax outer))"
  unfolding IsInside_def by (auto simp: not_less)

lemma not_Fit_posSize:
  assumes "\<not> FitBoundingBox oc box (Size box)" "validBox box"
  shows "posSize oc"
  using assms unfolding FitBoundingBox_def posSize_def validBox_def
  by (auto simp: geom_defs split: if_splits)

text \<open>One axis of the placement argument.\<close>

lemma axis_place:
  fixes lo hi bl bh :: "'a::linordered_field"
  assumes "bl \<le> bh" "bh - bl < (hi - lo) / 2" "lo - (1/2) * ((hi - lo) / 2) < bl"
    "bh < hi + (1/2) * ((hi - lo) / 2)"
  defines "c \<equiv> (hi + lo) / 2"
  defines "clo \<equiv> (if (bh + bl) / 2 < c then lo else c)"
  defines "chi \<equiv> (if (bh + bl) / 2 < c then c else hi)"
  shows "clo - (chi - clo) / 2 \<le> bl \<and> bh \<le> chi + (chi - clo) / 2"
  using assms(1-4) unfolding c_def clo_def chi_def by (auto simp: field_simps)

lemma childBox_ChildIndex_x:
  "vx (bmin (childBox oc (ChildIndex oc v))) = (if vx v < vx (center oc) then vx (bmin (worldBoundingBox oc)) else vx (center oc))"
  "vx (bmax (childBox oc (ChildIndex oc v))) = (if vx v < vx (center oc) then vx (center oc) else vx (bmax (worldBoundingBox oc)))"
  by (auto simp: childBox_def ChildIndex_def Let_def)

lemma childBox_ChildIndex_y:
  "vy (bmin (childBox oc (ChildIndex oc v))) = (if vy v < vy (center oc) then vy (bmin (worldBoundingBox oc)) else vy (center oc))"
  "vy (bmax (childBox oc (ChildIndex oc v))) = (if vy v < vy (center oc) then vy (center oc) else vy (bmax (worldBoundingBox oc)))"
  by (auto simp: childBox_def ChildIndex_def Let_def)

lemma childBox_ChildIndex_z:
  "vz (bmin (childBox oc (ChildIndex oc v))) = (if vz v < vz (center oc) then vz (bmin (worldBoundingBox oc)) else vz (center oc))"
  "vz (bmax (childBox oc (ChildIndex oc v))) = (if vz v < vz (center oc) then vz (center oc) else vz (bmax (worldBoundingBox oc)))"
  by (auto simp: childBox_def ChildIndex_def Let_def)


lemma derived_culling:
  fixes oc :: "'a::linordered_field Octant"
  assumes "derived oc"
  shows "vx (bmin (cullingBox oc)) = vx (bmin (worldBoundingBox oc)) - (vx (bmax (worldBoundingBox oc)) - vx (bmin (worldBoundingBox oc))) / 2"
    "vx (bmax (cullingBox oc)) = vx (bmax (worldBoundingBox oc)) + (vx (bmax (worldBoundingBox oc)) - vx (bmin (worldBoundingBox oc))) / 2"
    "vy (bmin (cullingBox oc)) = vy (bmin (worldBoundingBox oc)) - (vy (bmax (worldBoundingBox oc)) - vy (bmin (worldBoundingBox oc))) / 2"
    "vy (bmax (cullingBox oc)) = vy (bmax (worldBoundingBox oc)) + (vy (bmax (worldBoundingBox oc)) - vy (bmin (worldBoundingBox oc))) / 2"
    "vz (bmin (cullingBox oc)) = vz (bmin (worldBoundingBox oc)) - (vz (bmax (worldBoundingBox oc)) - vz (bmin (worldBoundingBox oc))) / 2"
    "vz (bmax (cullingBox oc)) = vz (bmax (worldBoundingBox oc)) + (vz (bmax (worldBoundingBox oc)) - vz (bmin (worldBoundingBox oc))) / 2"
  using assms by (simp_all add: derived_def geom_defs)

lemma derived_center:
  fixes oc :: "'a::linordered_field Octant"
  assumes "derived oc"
  shows "vx (center oc) = (vx (bmax (worldBoundingBox oc)) + vx (bmin (worldBoundingBox oc))) / 2"
    "vy (center oc) = (vy (bmax (worldBoundingBox oc)) + vy (bmin (worldBoundingBox oc))) / 2"
    "vz (center oc) = (vz (bmax (worldBoundingBox oc)) + vz (bmin (worldBoundingBox oc))) / 2"
    "vx (halfSize oc) = (vx (bmax (worldBoundingBox oc)) - vx (bmin (worldBoundingBox oc))) / 2"
    "vy (halfSize oc) = (vy (bmax (worldBoundingBox oc)) - vy (bmin (worldBoundingBox oc))) / 2"
    "vz (halfSize oc) = (vz (bmax (worldBoundingBox oc)) - vz (bmin (worldBoundingBox oc))) / 2"
  using assms by (simp_all add: derived_def geom_defs)

lemma box_center:
  fixes b :: "'a::linordered_field BoundingBox"
  shows "vx (Center b) = (vx (bmax b) + vx (bmin b)) / 2" "vy (Center b) = (vy (bmax b) + vy (bmin b)) / 2"
  "vz (Center b) = (vz (bmax b) + vz (bmin b)) / 2"
  "vx (Size b) = vx (bmax b) - vx (bmin b)" "vy (Size b) = vy (bmax b) - vy (bmin b)"
  "vz (Size b) = vz (bmax b) - vz (bmin b)"
  by (simp_all add: geom_defs)

lemma child_contains:
  fixes oc :: "'a::linordered_field Octant"
  assumes d: "derived oc" and nf: "\<not> FitBoundingBox oc box (Size box)" and v: "validBox box"
    and dc: "derived coc" and w: "worldBoundingBox coc = childBox oc (ChildIndex oc (Center box))"
  shows "IsInside (cullingBox coc) box = INSIDE"
proof -
  let ?w = "worldBoundingBox oc"
  from nf have f:
    "vx (Size box) < vx (halfSize oc)" "vy (Size box) < vy (halfSize oc)" "vz (Size box) < vz (halfSize oc)"
    "vx (bmin ?w) - (1/2) * vx (halfSize oc) < vx (bmin box)"
    "vy (bmin ?w) - (1/2) * vy (halfSize oc) < vy (bmin box)"
    "vz (bmin ?w) - (1/2) * vz (halfSize oc) < vz (bmin box)"
    "vx (bmax box) < vx (bmax ?w) + (1/2) * vx (halfSize oc)"
    "vy (bmax box) < vy (bmax ?w) + (1/2) * vy (halfSize oc)"
    "vz (bmax box) < vz (bmax ?w) + (1/2) * vz (halfSize oc)"
    unfolding FitBoundingBox_def by (simp_all add: not_le split: if_splits)
  from v have vb: "vx (bmin box) \<le> vx (bmax box)" "vy (bmin box) \<le> vy (bmax box)"
    "vz (bmin box) \<le> vz (bmax box)" by (simp_all add: validBox_def)
  have X: "vx (bmin (cullingBox coc)) \<le> vx (bmin box) \<and> vx (bmax box) \<le> vx (bmax (cullingBox coc))"
    unfolding derived_culling [OF dc] w childBox_ChildIndex_x derived_center [OF d] box_center
    using vb(1) f(1,4,7) unfolding derived_center [OF d] box_center
    by (rule axis_place)
  have Y: "vy (bmin (cullingBox coc)) \<le> vy (bmin box) \<and> vy (bmax box) \<le> vy (bmax (cullingBox coc))"
    unfolding derived_culling [OF dc] w childBox_ChildIndex_y derived_center [OF d] box_center
    using vb(2) f(2,5,8) unfolding derived_center [OF d] box_center
    by (rule axis_place)
  have Z: "vz (bmin (cullingBox coc)) \<le> vz (bmin box) \<and> vz (bmax box) \<le> vz (bmax (cullingBox coc))"
    unfolding derived_culling [OF dc] w childBox_ChildIndex_z derived_center [OF d] box_center
    using vb(3) f(3,6,9) unfolding derived_center [OF d] box_center
    by (rule axis_place)
  show ?thesis
    unfolding IsInside_INSIDE using X Y Z vb by auto
qed

lemma grows_refl: "grows m m"
  by (auto simp: grows_def)

lemma growsD1:
  "grows m m' \<Longrightarrow> m b = Some oc \<Longrightarrow>
     \<exists>oc'. m' b = Some oc' \<and> geomPart oc' = geomPart oc \<and> sortDirty oc' = sortDirty oc"
  unfolding grows_def by blast

lemma growsD2: "grows m m' \<Longrightarrow> m b = None \<Longrightarrow> m' b = Some oc' \<Longrightarrow> \<not> sortDirty oc'"
  unfolding grows_def by blast

lemma grows_trans:
  assumes 1: "grows m m1" and 2: "grows m1 m2"
  shows "grows m m2"
  unfolding grows_def
proof (intro conjI allI impI)
  fix b oc assume "m b = Some oc"
  from growsD1 [OF 1 this] obtain oc1 where
    o1: "m1 b = Some oc1" "geomPart oc1 = geomPart oc" "sortDirty oc1 = sortDirty oc" by auto
  from growsD1 [OF 2 o1(1)] o1(2,3)
  show "\<exists>oc'. m2 b = Some oc' \<and> geomPart oc' = geomPart oc \<and> sortDirty oc' = sortDirty oc"
    by auto
next
  fix b oc2 assume b: "m b = None" "m2 b = Some oc2"
  show "\<not> sortDirty oc2"
  proof (cases "m1 b")
    case None
    from growsD2 [OF 2 None b(2)] show ?thesis .
  next
    case (Some oc1)
    from growsD2 [OF 1 b(1) Some] growsD1 [OF 2 Some] b(2) show ?thesis by auto
  qed
qed

lemma descentInv_start:
  assumes "tree m0" "geo m0" "counts m0 {} 0" "pruned m0 {}"
  shows "descentInv m0 box m0 root"
  unfolding descentInv_def
  using assms treeD_root [OF assms(1)] pruned_mono [OF assms(4), of "chain root"]
  by (auto simp: grows_refl)

lemma descentInv_step:
  assumes t0: "tree m0" and v: "validBox box"
    and I: "descentInv m0 box m a" and a: "m a = Some oc" and ni: "\<not> insertHere a oc box"
    and cc: "createChild m a (ChildIndex oc (Center box)) = (m', c)"
  shows "descentInv m0 box m' c \<and> (\<exists>coc. m' c = Some coc \<and> level coc < level oc)"
proof -
  from I have t: "tree m" and g: "geo m" and cn: "counts m {} 0" and pr: "pruned m (chain a)"
    and n: "nodesOf m = nodesOf m0" and gr: "grows m0 m" and un: "m \<noteq> m0 \<longrightarrow> m0 a = None"
    unfolding descentInv_def by blast+
  have nf: "\<not> FitBoundingBox oc box (Size box)" using ni by (rule not_insertHere_Fit)
  have ps: "posSize oc" using nf v by (rule not_Fit_posSize)
  note ci = createChild_inv [OF t g cn pr a ChildIndex_lt8 ps cc]
  from ci(9) obtain coc where coc: "m' c = Some coc" "level coc = level oc - 1"
    "worldBoundingBox coc = childBox oc (ChildIndex oc (Center box))" "derived coc" by auto
  have ins: "IsInside (cullingBox coc) box = INSIDE"
    using geoD_derived [OF g a] nf v coc(4,3) by (rule child_contains)
  have gr': "grows m0 m'" using gr ci(7) by (rule grows_trans)
  have un': "m' \<noteq> m0 \<longrightarrow> m0 c = None"
  proof
    assume ne: "m' \<noteq> m0"
    show "m0 c = None"
    proof (cases "m' = m")
      case True
      with ne un have "m0 a = None" by simp
      then show ?thesis using tree_dead_below [OF t0, of a c] ci(6) by (simp add: suffix_Cons)
    next
      case False
      with ci(8) have mc: "m c = None" by simp
      show ?thesis
      proof (cases "m0 c")
        case None then show ?thesis .
      next
        case (Some x)
        from growsD1 [OF gr Some] mc show ?thesis by simp
      qed
    qed
  qed
  have "descentInv m0 box m' c"
    unfolding descentInv_def using ci(1-5) n gr' un' coc(1) ins by simp
  then show ?thesis using coc by auto
qed

lemma descentInv_live: "descentInv m0 box m a \<Longrightarrow> \<exists>oc. m a = Some oc"
  unfolding descentInv_def by blast

lemma findOctant_spec:
  assumes t0: "tree (octs s)" and g0: "geo (octs s)" and c0: "counts (octs s) {} 0"
    and p0: "pruned (octs s) {}" and v: "validBox box"
  shows "\<exists>m' c oc'. findOctant s root box = Some (s\<lparr>octs := m'\<rparr>, c) \<and>
           descentInv (octs s) box m' c \<and> m' c = Some oc' \<and> insertHere c oc' box"
proof (rule findOctant_rule [where I = "descentInv (octs s) box"])
  show "descentInv (octs s) box (octs s) root"
    using t0 g0 c0 p0 by (rule descentInv_start)
next
  fix m a assume "descentInv (octs s) box m a"
  then show "\<exists>oc. m a = Some oc" by (rule descentInv_live)
next
  fix m a oc m' c
  assume "descentInv (octs s) box m a" "m a = Some oc" "\<not> insertHere a oc box"
    "createChild m a (ChildIndex oc (Center box)) = (m', c)"
  with t0 v show "descentInv (octs s) box m' c \<and> (\<exists>coc. m' c = Some coc \<and> level coc < level oc)"
    by (rule descentInv_step)
qed

section \<open>Adding an object\<close>

lemma tree_live_above:
  assumes "tree m" "m d = Some x" "suffix b d"
  shows "\<exists>y. m b = Some y"
proof (cases "m b")
  case None
  from tree_dead_below [OF assms(1) None assms(3)] assms(2) show ?thesis by simp
next
  case (Some y) then show ?thesis by blast
qed

lemma chainOK_tree:
  assumes t: "tree m" and g: "geo m" and a: "m a = Some oc"
  shows "chainOK m a"
  unfolding chainOK_def
proof (intro allI impI)
  fix b assume "suffix b a"
  from tree_live_above [OF t a this] obtain y where y: "m b = Some y" by auto
  have "\<forall>j q. b = j # q \<longrightarrow>
          (\<exists>qoc. m q = Some qoc \<and> children qoc j = Some b \<and> ChildIndex qoc (center y) = j)"
  proof (intro allI impI)
    fix j q assume b: "b = j # q"
    from treeD_up [OF t y [unfolded b]] geoD_child [OF g y [unfolded b]]
    show "\<exists>qoc. m q = Some qoc \<and> children qoc j = Some b \<and> ChildIndex qoc (center y) = j"
      unfolding b by auto
  qed
  with y treeD_parent [OF t y]
  show "\<exists>oc. m b = Some oc \<and> parent oc = (case b of [] \<Rightarrow> None | j # q \<Rightarrow> Some q) \<and>
          (\<forall>j q. b = j # q \<longrightarrow>
             (\<exists>qoc. m q = Some qoc \<and> children qoc j = Some b \<and> ChildIndex qoc (center oc) = j))"
    by blast
qed

lemma nodesOf_upd: "nodesOf (m(a \<mapsto> oc)) = (nodesOf m)(a := nodes oc)"
  by (auto simp: nodesOf_def fun_eq_iff)

lemma nodesOf_chainAdd: "nodesOf (chainAdd m a k) = nodesOf m"
  by (auto simp: nodesOf_def chainAdd_def fun_eq_iff split: option.splits)

lemma dom_chainAdd: "dom (chainAdd m a k) = dom m"
  by (auto simp: chainAdd_def dom_def split: if_splits)

lemma addNode_inv:
  fixes n :: nat
  assumes t: "tree m" and g: "geo m" and c: "counts m {} 0" and pr: "pruned m (chain c)"
    and a: "m c = Some oc"
  defines "m2 \<equiv> chainAdd (m(c \<mapsto> oc\<lparr>nodes := nodes oc @ [n], sortDirty := True\<rparr>)) c 1"
  shows "tree m2" "geo m2" "counts m2 {} 0" "pruned m2 {}"
    "nodesOf m2 = (nodesOf m)(c := nodesOf m c @ [n])" "sameShape m m2"
    "\<And>b oc2. m2 b = Some oc2 \<Longrightarrow> \<exists>oc0. m b = Some oc0 \<and> (sortDirty oc2 \<longleftrightarrow> b = c \<or> sortDirty oc0)"
proof -
  let ?m1 = "m(c \<mapsto> oc\<lparr>nodes := nodes oc @ [n], sortDirty := True\<rparr>)"
  have s1: "sameShape m ?m1" using a by (intro sameShape_upd) (simp_all add: geomPart_def)
  show ss: "sameShape m m2"
    unfolding m2_def using s1 sameShape_chainAdd by (rule sameShape_trans)
  show t2: "tree m2" using t ss by (rule tree_sameShape)
  show "geo m2" using g ss by (rule geo_sameShape)
  show n2: "nodesOf m2 = (nodesOf m)(c := nodesOf m c @ [n])"
    unfolding m2_def nodesOf_chainAdd nodesOf_upd using a by (simp add: nodesOf_def)
  have ce: "\<And>b. cnt m2 b = cnt m b + (if suffix b c then 1 else 0)"
    using cnt_upd [OF treeD_fin [OF t] treeD_fin [OF t2] n2] by simp
  have num: "\<And>b oc2. m2 b = Some oc2 \<Longrightarrow>
      \<exists>oc0. m b = Some oc0 \<and> numNodes oc2 = numNodes oc0 + (if suffix b c then 1 else 0) \<and>
        (sortDirty oc2 \<longleftrightarrow> b = c \<or> sortDirty oc0)"
    using a unfolding m2_def chainAdd_def by (auto split: if_splits)
  show "counts m2 {} 0"
  proof (rule countsI)
    fix b oc2 assume "m2 b = Some oc2"
    from num [OF this] obtain oc0 where "m b = Some oc0"
      "numNodes oc2 = numNodes oc0 + (if suffix b c then 1 else 0)" by auto
    then show "numNodes oc2 = cnt m2 b + (if b \<in> {} then 0 else 0)"
      using countsD [OF c, of b oc0] by (simp add: ce)
  qed
  show "pruned m2 {}"
  proof (rule prunedI)
    fix b oc2 assume b: "m2 b = Some oc2" "b \<noteq> root"
    from num [OF b(1)] obtain oc0 where oc0: "m b = Some oc0" by auto
    show "0 < cnt m2 b"
    proof (cases "suffix b c")
      case True
      then show ?thesis using cnt_nonneg [of m b] by (simp add: ce)
    next
      case False
      then have "b \<notin> chain c" by (simp add: chain_def)
      from prunedD [OF pr oc0 b(2) this] False show ?thesis by (simp add: ce)
    qed
  qed
  fix b oc2 assume "m2 b = Some oc2"
  from num [OF this]
  show "\<exists>oc0. m b = Some oc0 \<and> (sortDirty oc2 \<longleftrightarrow> b = c \<or> sortDirty oc0)" by auto
qed

lemma AddNode_eq:
  assumes t: "tree (octs s)" and g: "geo (octs s)" and a: "octs s c = Some oc"
  shows "AddNode s n c =
     Some (s\<lparr>octs := chainAdd ((octs s)(c \<mapsto> oc\<lparr>nodes := nodes oc @ [n], sortDirty := True\<rparr>)) c 1,
             objs := (objs s)(n := (objs s n)\<lparr>octant := Some c\<rparr>),
             sortDirtyOctants := (if sortDirty oc then sortDirtyOctants s else sortDirtyOctants s @ [c])\<rparr>)"
proof -
  let ?oc1 = "oc\<lparr>nodes := nodes oc @ [n], sortDirty := True\<rparr>"
  let ?m1 = "(octs s)(c \<mapsto> ?oc1)"
  let ?s1 = "s\<lparr>octs := ?m1, objs := (objs s)(n := (objs s n)\<lparr>octant := Some c\<rparr>),
             sortDirtyOctants := (if sortDirty oc then sortDirtyOctants s else sortDirtyOctants s @ [c])\<rparr>"
  have s1: "sameShape (octs s) ?m1" using a by (intro sameShape_upd) (simp_all add: geomPart_def)
  have "chainOK ?m1 c"
    using tree_sameShape [OF t s1] geo_sameShape [OF g s1] by (rule chainOK_tree) simp
  then have "chainOK (octs ?s1) c" by simp
  from incNumNodes_chain [OF this]
  have i: "incNumNodes ?s1 (Some c) = Some (?s1\<lparr>octs := chainAdd ?m1 c 1\<rparr>)" by simp
  have "AddNode s n c = incNumNodes ?s1 (Some c)"
  proof (cases "sortDirty oc")
    case True
    then have e: "?oc1 = oc\<lparr>nodes := nodes oc @ [n]\<rparr>" by simp
    show ?thesis unfolding AddNode_def e by (simp add: a Let_def True)
  next
    case False
    show ?thesis unfolding AddNode_def by (simp add: a Let_def False)
  qed
  then show ?thesis unfolding i by simp
qed

section \<open>Removing an object\<close>

lemma tree_prune:
  assumes t: "tree m" and a: "m (i # p) = Some oc" and nc: "\<And>j. m (j # i # p) = None"
  defines "m2 \<equiv> m(i # p := None,
                   p := map_option (\<lambda>noc. noc\<lparr>children := (children noc)(i := None)\<rparr>) (m p))"
  shows "tree m2"
proof (rule treeI)
  from treeD_up [OF t a] obtain qoc where q: "m p = Some qoc" "children qoc i = Some (i # p)" by auto
  let ?q' = "qoc\<lparr>children := (children qoc)(i := None)\<rparr>"
  have m2p: "m2 p = Some ?q'" by (simp add: m2_def q notself)
  have m2a: "m2 (i # p) = None" by (simp add: m2_def notself)
  have m2o: "\<And>x. x \<noteq> p \<Longrightarrow> x \<noteq> i # p \<Longrightarrow> m2 x = m x" by (simp add: m2_def)
  show "finite (dom m2)" using treeD_fin [OF t] by (simp add: m2_def)
  show "\<exists>oc. m2 root = Some oc"
    using treeD_root [OF t] m2p m2o [of root] by (cases "p = root") (auto simp: root_def)
  {
    fix b j x assume l: "m2 (j # b) = Some x"
    then have ne: "j # b \<noteq> i # p" using m2a by auto
    have "\<exists>y. m (j # b) = Some y"
    proof (cases "j # b = p")
      case True
      then show ?thesis using q by simp
    next
      case False
      then have "m2 (j # b) = m (j # b)" using ne by (rule m2o)
      with l show ?thesis by simp
    qed
    then obtain y where y: "m (j # b) = Some y" ..
    from treeD_up [OF t y] obtain poc where poc: "m b = Some poc" "children poc j = Some (j # b)"
      by auto
    have nb: "b \<noteq> i # p" using y nc [of j] by auto
    show "\<exists>poc. m2 b = Some poc \<and> children poc j = Some (j # b)"
    proof (cases "b = p")
      case True
      then have "j \<noteq> i" using ne by simp
      then show ?thesis using True poc q m2p by simp
    next
      case False
      then show ?thesis using nb poc m2o [of b] by simp
    qed
  }
  {
    fix x xoc j c assume l: "m2 x = Some xoc" "children xoc j = Some c"
    then have nx: "x \<noteq> i # p" using m2a by auto
    show "c = j # x \<and> (\<exists>coc. m2 c = Some coc)"
    proof (cases "x = p")
      case True
      then have xoc: "xoc = ?q'" using l m2p by simp
      then have ji: "j \<noteq> i" using l(2) by auto
      then have "children qoc j = Some c" using xoc l(2) by simp
      from treeD_slot [OF t q(1) this] obtain coc where c: "c = j # p" "m c = Some coc" by auto
      then have "m2 c = m c" using ji by (intro m2o) (simp_all add: notself)
      then show ?thesis using c True by simp
    next
      case False
      then have mx: "m x = Some xoc" using l nx m2o [of x] by simp
      from treeD_slot [OF t mx l(2)] obtain coc where c: "c = j # x" "m c = Some coc" by auto
      have "c \<noteq> i # p" using c False by simp
      then have "\<exists>coc. m2 c = Some coc"
      proof (cases "c = p")
        case True
        then show ?thesis using m2p by simp
      next
        case F: False
        from m2o [OF F \<open>c \<noteq> i # p\<close>] c show ?thesis by simp
      qed
      then show ?thesis using c by simp
    qed
  }
  {
    fix x xoc assume l: "m2 x = Some xoc"
    then have nx: "x \<noteq> i # p" using m2a by auto
    show "parent xoc = (case x of [] \<Rightarrow> None | i # p \<Rightarrow> Some p)"
    proof (cases "x = p")
      case True
      then show ?thesis using l m2p treeD_parent [OF t q(1)] by auto
    next
      case False
      then have "m x = Some xoc" using l nx m2o [of x] by simp
      then show ?thesis by (rule treeD_parent [OF t])
    qed
  }
qed

lemma geo_prune:
  assumes t: "tree m" and g: "geo m" and a: "m (i # p) = Some oc" and nc: "\<And>j. m (j # i # p) = None"
  defines "m2 \<equiv> m(i # p := None,
                   p := map_option (\<lambda>noc. noc\<lparr>children := (children noc)(i := None)\<rparr>) (m p))"
  shows "geo m2"
proof (rule geoI)
  have sub: "\<And>x xoc. m2 x = Some xoc \<Longrightarrow> x \<noteq> i # p \<and> (\<exists>y. m x = Some y \<and> geomPart xoc = geomPart y)"
    unfolding m2_def by (auto simp: geomPart_def split: if_splits)
  have sup: "\<And>x y. m x = Some y \<Longrightarrow> x \<noteq> i # p \<Longrightarrow> \<exists>xoc. m2 x = Some xoc \<and> geomPart xoc = geomPart y"
    unfolding m2_def by (auto simp: geomPart_def split: if_splits)
  {
    fix x xoc assume "m2 x = Some xoc"
    from sub [OF this] obtain y where y: "m x = Some y" "geomPart xoc = geomPart y" by auto
    show "derived xoc" using geoD_derived [OF g y(1)] by (simp add: geomPart_props [OF y(2)])
  }
  {
    fix j q xoc assume "m2 (j # q) = Some xoc"
    from sub [OF this] obtain y where y: "m (j # q) = Some y" "geomPart xoc = geomPart y" by auto
    from geoD_child [OF g y(1)] obtain poc where poc: "m q = Some poc" "posSize poc"
      "worldBoundingBox y = childBox poc j" "level y = level poc - 1" "ChildIndex poc (center y) = j"
      by auto
    have "q \<noteq> i # p" using y(1) nc [of j] by auto
    from sup [OF poc(1) this] obtain poc' where poc': "m2 q = Some poc'" "geomPart poc' = geomPart poc"
      by auto
    show "\<exists>poc. m2 q = Some poc \<and> posSize poc \<and> worldBoundingBox xoc = childBox poc j \<and>
           level xoc = level poc - 1 \<and> ChildIndex poc (center xoc) = j"
      using poc poc'(1) geomPart_eq [OF y(2)] geomPart_eq [OF poc'(2)]
      by (simp add: geomPart_props [OF poc'(2)])
  }
qed

lemma shrinksD:
  "shrinks m m' \<Longrightarrow> m' b = Some oc' \<Longrightarrow>
     \<exists>oc. m b = Some oc \<and> geomPart oc' = geomPart oc \<and> sortDirty oc' = sortDirty oc"
  unfolding shrinks_def by blast

lemma shrinks_trans:
  assumes 1: "shrinks m m1" and 2: "shrinks m1 m2"
  shows "shrinks m m2"
  unfolding shrinks_def
proof (intro allI impI)
  fix b oc2 assume "m2 b = Some oc2"
  from shrinksD [OF 2 this] obtain oc1 where
    o1: "m1 b = Some oc1" "geomPart oc2 = geomPart oc1" "sortDirty oc2 = sortDirty oc1" by auto
  from shrinksD [OF 1 o1(1)] o1(2,3)
  show "\<exists>oc. m b = Some oc \<and> geomPart oc2 = geomPart oc \<and> sortDirty oc2 = sortDirty oc"
    by auto
qed

lemma decChain_inv:
  assumes "tree m" "geo m" "counts m (chain a) 1" "pruned m (chain a)" "m a = Some oc"
  shows "tree (decChain m a) \<and> geo (decChain m a) \<and> counts (decChain m a) {} 0 \<and>
         pruned (decChain m a) {} \<and> nodesOf (decChain m a) = nodesOf m \<and> shrinks m (decChain m a)"
  using assms
proof (induction a arbitrary: m oc)
  case Nil
  define m' where "m' = m([] \<mapsto> oc\<lparr>numNodes := numNodes oc - 1\<rparr>)"
  have e: "decChain m [] = m'" using Nil.prems(5) by (simp add: m'_def)
  have ss: "sameShape m m'" unfolding m'_def
    using Nil.prems(5) by (intro sameShape_upd) (simp_all add: geomPart_def)
  have t': "tree m'" using Nil.prems(1) ss by (rule tree_sameShape)
  have g': "geo m'" using Nil.prems(2) ss by (rule geo_sameShape)
  have n': "nodesOf m' = nodesOf m" using Nil.prems(5) by (auto simp: m'_def nodesOf_def fun_eq_iff)
  have ce: "\<And>b. cnt m' b = cnt m b"
    using treeD_fin [OF t'] treeD_fin [OF Nil.prems(1)] n' by (intro cnt_eq) auto
  have c': "counts m' {} 0"
  proof (rule countsI)
    fix b x assume b: "m' b = Some x"
    show "numNodes x = cnt m' b + (if b \<in> {} then 0 else 0)"
    proof (cases "b = []")
      case True
      then have "numNodes x = numNodes oc - 1" using b by (auto simp: m'_def)
      then show ?thesis using countsD [OF Nil.prems(3) Nil.prems(5)] True
        by (simp add: ce chain_Nil)
    next
      case False
      then have "m b = Some x" using b by (simp add: m'_def)
      from countsD [OF Nil.prems(3) this] False show ?thesis by (simp add: ce chain_Nil)
    qed
  qed
  have p': "pruned m' {}"
  proof (rule prunedI)
    fix b x assume b: "m' b = Some x" "b \<noteq> root"
    then have "m b = Some x" "b \<notin> chain []" by (simp_all add: m'_def root_def chain_Nil)
    from prunedD [OF Nil.prems(4) this(1) b(2) this(2)] show "0 < cnt m' b" by (simp add: ce)
  qed
  have s': "shrinks m m'"
    using Nil.prems(5) by (auto simp: m'_def shrinks_def geomPart_def)
  show ?case unfolding e using t' g' c' p' n' s' by simp
next
  case (Cons i p)
  note t = Cons.prems(1) and g = Cons.prems(2) and c = Cons.prems(3) and pr = Cons.prems(4)
    and a = Cons.prems(5)
  from treeD_up [OF t a] obtain qoc where q: "m p = Some qoc" "children qoc i = Some (i # p)" by auto
  have num: "numNodes oc = cnt m (i # p) + 1"
    using countsD [OF c a] by (simp add: chain_self)
  show ?case
  proof (cases "numNodes oc - 1 = 0")
    case True
    then have z: "cnt m (i # p) = 0" using num by simp
    define m2 where "m2 = m(i # p := None,
                  p := map_option (\<lambda>noc. noc\<lparr>children := (children noc)(i := None)\<rparr>) (m p))"
    have e: "decChain m (i # p) = decChain m2 p" using a True by (simp add: m2_def)
    have nc: "\<And>j. m (j # i # p) = None"
    proof -
      fix j show "m (j # i # p) = None"
      proof (cases "m (j # i # p)")
        case None then show ?thesis .
      next
        case (Some y)
        have "j # i # p \<notin> chain (i # p)" by (auto simp: chain_def dest: suffix_length_le)
        from prunedD [OF pr Some _ this] have "0 < cnt m (j # i # p)" by (simp add: root_def)
        moreover have "cnt m (j # i # p) \<le> cnt m (i # p)"
          using treeD_fin [OF t] by (rule cnt_mono) (simp add: suffix_Cons)
        ultimately show ?thesis using z by simp
      qed
    qed
    have t2: "tree m2" unfolding m2_def using t a nc by (rule tree_prune)
    have g2: "geo m2" unfolding m2_def using t g a nc by (rule geo_prune)
    have na: "nodesOf m (i # p) = []"
      using treeD_fin [OF t] z by (rule cnt_zero_nodes) simp
    have n2: "nodesOf m2 = nodesOf m"
      using na q by (auto simp: m2_def nodesOf_def fun_eq_iff)
    have ce: "\<And>b. cnt m2 b = cnt m b"
      using treeD_fin [OF t2] treeD_fin [OF t] n2 by (intro cnt_eq) auto
    have sub: "\<And>b x. m2 b = Some x \<Longrightarrow> b \<noteq> i # p \<and>
        (\<exists>y. m b = Some y \<and> numNodes x = numNodes y \<and> geomPart x = geomPart y \<and> sortDirty x = sortDirty y)"
      by (auto simp: m2_def geomPart_def split: if_splits)
    have c2: "counts m2 (chain p) 1"
    proof (rule countsI)
      fix b x assume "m2 b = Some x"
      from sub [OF this] obtain y where y: "b \<noteq> i # p" "m b = Some y" "numNodes x = numNodes y"
        by auto
      from countsD [OF c y(2)] y(1,3)
      show "numNodes x = cnt m2 b + (if b \<in> chain p then 1 else 0)"
        by (simp add: ce chain_Cons)
    qed
    have p2: "pruned m2 (chain p)"
    proof (rule prunedI)
      fix b x assume b: "m2 b = Some x" "b \<noteq> root" "b \<notin> chain p"
      from sub [OF b(1)] obtain y where y: "b \<noteq> i # p" "m b = Some y" by auto
      have "b \<notin> chain (i # p)" using b(3) y(1) by (simp add: chain_Cons)
      from prunedD [OF pr y(2) b(2) this] show "0 < cnt m2 b" by (simp add: ce)
    qed
    have l2: "m2 p = Some (qoc\<lparr>children := (children qoc)(i := None)\<rparr>)"
      using q by (simp add: m2_def notself)
    have s2: "shrinks m m2"
      unfolding shrinks_def using sub by blast
    from Cons.IH [OF t2 g2 c2 p2 l2] s2 show ?thesis
      unfolding e n2 by (auto intro: shrinks_trans)
  next
    case False
    then have nz: "cnt m (i # p) \<noteq> 0" using num by simp
    define m1 where "m1 = m(i # p \<mapsto> oc\<lparr>numNodes := numNodes oc - 1\<rparr>)"
    have e: "decChain m (i # p) = decChain m1 p" using a False by (simp add: m1_def)
    have ss: "sameShape m m1" unfolding m1_def
      using a by (intro sameShape_upd) (simp_all add: geomPart_def)
    have t1: "tree m1" using t ss by (rule tree_sameShape)
    have g1: "geo m1" using g ss by (rule geo_sameShape)
    have n1: "nodesOf m1 = nodesOf m" using a by (auto simp: m1_def nodesOf_def fun_eq_iff)
    have ce: "\<And>b. cnt m1 b = cnt m b"
      using treeD_fin [OF t1] treeD_fin [OF t] n1 by (intro cnt_eq) auto
    have nin: "i # p \<notin> chain p" by (auto simp: chain_def dest: suffix_length_le)
    have c1: "counts m1 (chain p) 1"
    proof (rule countsI)
      fix b x assume b: "m1 b = Some x"
      show "numNodes x = cnt m1 b + (if b \<in> chain p then 1 else 0)"
      proof (cases "b = i # p")
        case True
        then have "numNodes x = numNodes oc - 1" using b by (auto simp: m1_def)
        then show ?thesis using num True nin by (simp add: ce)
      next
        case F: False
        then have "m b = Some x" using b by (simp add: m1_def)
        from countsD [OF c this] F show ?thesis by (simp add: ce chain_Cons)
      qed
    qed
    have p1: "pruned m1 (chain p)"
    proof (rule prunedI)
      fix b x assume b: "m1 b = Some x" "b \<noteq> root" "b \<notin> chain p"
      show "0 < cnt m1 b"
      proof (cases "b = i # p")
        case True
        then show ?thesis using nz cnt_nonneg [of m "i # p"] by (simp add: ce)
      next
        case F: False
        then have "m b = Some x" "b \<notin> chain (i # p)" using b by (simp_all add: m1_def chain_Cons)
        from prunedD [OF pr this(1) b(2) this(2)] show ?thesis by (simp add: ce)
      qed
    qed
    have l1: "m1 p = Some qoc" using q by (simp add: m1_def notself)
    have s1: "shrinks m m1"
      using a by (auto simp: m1_def shrinks_def geomPart_def)
    from Cons.IH [OF t1 g1 c1 p1 l1] s1 show ?thesis
      unfolding e n1 by (auto intro: shrinks_trans)
  qed
qed

lemma removeNode_inv:
  fixes n :: nat
  assumes t: "tree m" and g: "geo m" and c: "counts m {} 0" and pr: "pruned m {}"
    and a: "m old = Some oc" and n: "n \<in> set (nodes oc)"
  defines "m' \<equiv> decChain (m(old \<mapsto> oc\<lparr>nodes := remove1 n (nodes oc)\<rparr>)) old"
  shows "tree m'" "geo m'" "counts m' {} 0" "pruned m' {}"
    "nodesOf m' = (nodesOf m)(old := remove1 n (nodesOf m old))" "shrinks m m'"
proof -
  define m1 where "m1 = m(old \<mapsto> oc\<lparr>nodes := remove1 n (nodes oc)\<rparr>)"
  have ss: "sameShape m m1" unfolding m1_def
    using a by (intro sameShape_upd) (simp_all add: geomPart_def)
  have t1: "tree m1" using t ss by (rule tree_sameShape)
  have g1: "geo m1" using g ss by (rule geo_sameShape)
  have n1: "nodesOf m1 = (nodesOf m)(old := remove1 n (nodes oc))"
    unfolding m1_def by (rule nodesOf_upd [of m old "oc\<lparr>nodes := remove1 n (nodes oc)\<rparr>", simplified])
  have len: "int (length (remove1 n (nodes oc))) - int (length (nodesOf m old)) = - 1"
  proof -
    have "0 < length (nodes oc)" using n by (cases "nodes oc") auto
    then have "int (length (nodes oc) - 1) - int (length (nodes oc)) = - 1" by arith
    then show ?thesis using n a by (simp add: nodesOf_def length_remove1)
  qed
  have ce: "\<And>b. cnt m1 b = cnt m b + (if suffix b old then - 1 else 0)"
    using cnt_upd [OF treeD_fin [OF t] treeD_fin [OF t1] n1] len by simp
  have sub: "\<And>b x. m1 b = Some x \<Longrightarrow>
      \<exists>y. m b = Some y \<and> numNodes x = numNodes y \<and> geomPart x = geomPart y \<and> sortDirty x = sortDirty y"
    using a by (auto simp: m1_def geomPart_def split: if_splits)
  have c1: "counts m1 (chain old) 1"
  proof (rule countsI)
    fix b x assume "m1 b = Some x"
    from sub [OF this] obtain y where y: "m b = Some y" "numNodes x = numNodes y" by auto
    from countsD [OF c y(1)] y(2)
    show "numNodes x = cnt m1 b + (if b \<in> chain old then 1 else 0)"
      by (simp add: ce chain_def)
  qed
  have p1: "pruned m1 (chain old)"
  proof (rule prunedI)
    fix b x assume b: "m1 b = Some x" "b \<noteq> root" "b \<notin> chain old"
    from sub [OF b(1)] obtain y where y: "m b = Some y" by auto
    from prunedD [OF pr y b(2)] b(3) show "0 < cnt m1 b" by (simp add: ce chain_def)
  qed
  have l1: "m1 old = Some (oc\<lparr>nodes := remove1 n (nodes oc)\<rparr>)" by (simp add: m1_def)
  have s1: "shrinks m m1" unfolding shrinks_def using sub by blast
  have e: "m' = decChain m1 old" by (simp add: m'_def m1_def)
  from decChain_inv [OF t1 g1 c1 p1 l1] have r: "tree m'" "geo m'" "counts m' {} 0" "pruned m' {}"
    "nodesOf m' = nodesOf m1" "shrinks m1 m'" unfolding e by blast+
  show "tree m'" "geo m'" "counts m' {} 0" "pruned m' {}" by fact+
  show "nodesOf m' = (nodesOf m)(old := remove1 n (nodesOf m old))"
    unfolding r(5) n1 using a by (simp add: nodesOf_def)
  show "shrinks m m'" using s1 r(6) by (rule shrinks_trans)
qed

lemma RemoveNodeFrom_eq:
  assumes t: "tree (octs s)" and g: "geo (octs s)" and a: "octs s old = Some oc"
    and n: "n \<in> set (nodes oc)"
  shows "RemoveNodeFrom s n (Some old) =
     Some (s\<lparr>octs := decChain ((octs s)(old \<mapsto> oc\<lparr>nodes := remove1 n (nodes oc)\<rparr>)) old\<rparr>)"
proof -
  let ?m1 = "(octs s)(old \<mapsto> oc\<lparr>nodes := remove1 n (nodes oc)\<rparr>)"
  let ?s1 = "s\<lparr>octs := ?m1\<rparr>"
  have s1: "sameShape (octs s) ?m1" using a by (intro sameShape_upd) (simp_all add: geomPart_def)
  have "chainOK ?m1 old"
    using tree_sameShape [OF t s1] geo_sameShape [OF g s1] by (rule chainOK_tree) simp
  then have "chainOK (octs ?s1) old" by simp
  from decNumNodes_chain [OF this]
  have i: "decNumNodes ?s1 (Some old) = Some (?s1\<lparr>octs := decChain ?m1 old\<rparr>)" by simp
  have "RemoveNodeFrom s n (Some old) = decNumNodes ?s1 (Some old)"
    unfolding RemoveNodeFrom_def by (simp add: a n)
  then show ?thesis unfolding i by simp
qed

section \<open>Back-references\<close>

lemma refsD:
  "refs m os \<Longrightarrow> distinct (nodesOf m a)"
  "refs m os \<Longrightarrow> (n \<in> set (nodesOf m a)) = (octant (os n) = Some a)"
  unfolding refs_def by blast+

lemma refsI:
  "(\<And>a. distinct (nodesOf m a)) \<Longrightarrow>
   (\<And>a n. (n \<in> set (nodesOf m a)) = (octant (os n) = Some a)) \<Longrightarrow> refs m os"
  unfolding refs_def by blast

lemma refs_live: "refs m os \<Longrightarrow> octant (os n) = Some a \<Longrightarrow> \<exists>oc. m a = Some oc \<and> n \<in> set (nodes oc)"
proof -
  assume r: "refs m os" and o: "octant (os n) = Some a"
  then have "n \<in> set (nodesOf m a)" by (simp add: refsD)
  then show ?thesis by (cases "m a") (auto simp: nodesOf_def)
qed

lemma refs_add:
  assumes r: "refs m os" and n2: "nodesOf m2 = (nodesOf m)(c := nodesOf m c @ [n])"
    and o: "octant (os n) = None"
  shows "refs m2 (os(n := (os n)\<lparr>octant := Some c\<rparr>))"
proof (rule refsI)
  have nin: "\<And>a. n \<notin> set (nodesOf m a)" using o by (simp add: refsD [OF r])
  fix a show "distinct (nodesOf m2 a)"
    unfolding n2 using refsD(1) [OF r, of a] nin [of a] by auto
  fix k show "(k \<in> set (nodesOf m2 a)) = (octant ((os(n := (os n)\<lparr>octant := Some c\<rparr>)) k) = Some a)"
    unfolding n2 using refsD(2) [OF r, of k a] nin [of a] by auto
qed

lemma refs_move:
  assumes r: "refs m os"
    and n3: "nodesOf m3 = (nodesOf m)(c := nodesOf m c @ [n], a := remove1 n (nodesOf m a))"
    and o: "octant (os n) = Some a" and ne: "a \<noteq> c"
  shows "refs m3 (os(n := (os n)\<lparr>octant := Some c\<rparr>))"
proof (rule refsI)
  have nin: "\<And>b. b \<noteq> a \<Longrightarrow> n \<notin> set (nodesOf m b)" using o by (simp add: refsD [OF r])
  fix b show "distinct (nodesOf m3 b)"
    unfolding n3 using refsD(1) [OF r, of b] nin [of b] ne by auto
  fix k show "(k \<in> set (nodesOf m3 b)) = (octant ((os(n := (os n)\<lparr>octant := Some c\<rparr>)) k) = Some b)"
    unfolding n3 using refsD(2) [OF r, of k b] refsD(1) [OF r, of a] nin [of b] ne o by auto
qed

lemma stable_refl: "stable m m"
  by (simp add: stable_def)

lemma stable_grows: "grows m m' \<Longrightarrow> stable m m'"
  unfolding stable_def grows_def by fastforce

lemma stable_sameShape:
  assumes "sameShape m m'"
  shows "stable m m'"
  unfolding stable_def
proof (intro allI impI)
  fix b ob ob' assume "m b = Some ob" "m' b = Some ob'"
  with sameShape_SomeD [OF assms this(2)] show "geomPart ob' = geomPart ob" by auto
qed

lemma stable_shrinks: "shrinks m m' \<Longrightarrow> stable m m'"
  unfolding stable_def shrinks_def by fastforce

lemma findOctant_stop:
  "octs s a = Some oc \<Longrightarrow> insertHere a oc box \<Longrightarrow> findOctant s a box = Some (s, a)"
  by (subst findOctant.simps) simp

section \<open>One pass of the loop of Update\<close>

lemma coreD:
  assumes "core s"
  shows "tree (octs s)" "geo (octs s)" "counts (octs s) {} 0" "pruned (octs s) {}"
    "refs (octs s) (objs s)" "validBox (nodeBox (objs s n))"
    "\<And>a oc. octs s a = Some oc \<Longrightarrow> sortDirty oc \<Longrightarrow> a \<in> set (sortDirtyOctants s)"
  using assms unfolding core_def by blast+

lemma coreI:
  assumes "tree (octs s)" "geo (octs s)" "counts (octs s) {} 0" "pruned (octs s) {}"
    "refs (octs s) (objs s)" "\<And>n. validBox (nodeBox (objs s n))"
    "\<And>a oc. octs s a = Some oc \<Longrightarrow> sortDirty oc \<Longrightarrow> a \<in> set (sortDirtyOctants s)"
  shows "core s"
  using assms unfolding core_def by blast

lemma octant_idem: "octant r = v \<Longrightarrow> r\<lparr>octant := v\<rparr> = r"
  by simp

lemma nodesOf_live: "n \<in> set (nodesOf m a) \<Longrightarrow> \<exists>oc. m a = Some oc \<and> n \<in> set (nodes oc)"
  by (cases "m a") (auto simp: nodesOf_def)

lemma settledI:
  assumes "octant (objs s n) = Some c" "octs s c = Some oc" "geomPart oc = geomPart oc'"
    "insertHere c oc' (nodeBox (objs s n))"
    "c \<noteq> root \<longrightarrow> IsInside (cullingBox oc') (nodeBox (objs s n)) = INSIDE"
  shows "settled s n"
proof -
  have "cullingBox oc = cullingBox oc'" using geomPart_eq [OF assms(3)] by simp
  moreover note geomPart_props(5) [OF assms(3)]
  ultimately show ?thesis
    unfolding settled_def using assms(1,2,4,5) by (auto simp: insertHere_def split: if_splits)
qed

lemma reinsert_spec:
  assumes co: "core s"
  shows "\<exists>s' c. reinsert s n (nodeBox (objs s n)) (octant (objs s n)) = Some s' \<and> moved s n s' c"
proof -
  define box where "box = nodeBox (objs s n)"
  define m where "m = octs s"
  note t = coreD(1) [OF co] and g = coreD(2) [OF co] and cn = coreD(3) [OF co]
    and pr = coreD(4) [OF co] and r = coreD(5) [OF co] and D = coreD(7) [OF co]
  have v: "validBox box" unfolding box_def by (rule coreD(6) [OF co])
  from findOctant_spec [OF t g cn pr v] obtain m' c oc' where
    fo: "findOctant s root box = Some (s\<lparr>octs := m'\<rparr>, c)" and
    di: "descentInv (octs s) box m' c" and l: "m' c = Some oc'" and ih: "insertHere c oc' box"
    by blast
  from di l have t': "tree m'" and g': "geo m'" and cn': "counts m' {} 0"
    and pr': "pruned m' (chain c)" and n': "nodesOf m' = nodesOf (octs s)"
    and gr: "grows (octs s) m'" and un: "m' \<noteq> octs s \<longrightarrow> octs s c = None"
    and ins: "c \<noteq> root \<longrightarrow> IsInside (cullingBox oc') box = INSIDE"
    unfolding descentInv_def by auto
  have DG: "\<And>x x0. m' x = Some x0 \<Longrightarrow> sortDirty x0 \<Longrightarrow> x \<in> set (sortDirtyOctants s)"
  proof -
    fix x x0 assume x: "m' x = Some x0" "sortDirty x0"
    show "x \<in> set (sortDirtyOctants s)"
    proof (cases "octs s x")
      case None
      from growsD2 [OF gr None x(1)] x(2) show ?thesis by simp
    next
      case (Some xm)
      from growsD1 [OF gr Some] x have "sortDirty xm" by auto
      with Some show ?thesis by (rule D)
    qed
  qed
  show ?thesis
  proof (cases "octant (objs s n) = Some c")
    case True
    from refs_live [OF r True] obtain oc where "octs s c = Some oc" by auto
    with un have e: "m' = octs s" by auto
    have re: "reinsert s n (nodeBox (objs s n)) (octant (objs s n)) = Some s"
      unfolding reinsert_def box_def [symmetric] fo using True e by simp
    have "settled s n"
      using True l [unfolded e] refl ih [unfolded box_def] ins [unfolded box_def] by (rule settledI)
    then have "moved s n s c"
      unfolding moved_def using co True by (auto simp: stable_refl octant_idem)
    with re show ?thesis by blast
  next
    case False
    let ?s1 = "s\<lparr>octs := m'\<rparr>"
    define m2 where "m2 = chainAdd (m'(c \<mapsto> oc'\<lparr>nodes := nodes oc' @ [n], sortDirty := True\<rparr>)) c 1"
    define os2 where "os2 = (objs s)(n := (objs s n)\<lparr>octant := Some c\<rparr>)"
    define l2 where "l2 = (if sortDirty oc' then sortDirtyOctants s else sortDirtyOctants s @ [c])"
    define s2 where "s2 = s\<lparr>octs := m2, objs := os2, sortDirtyOctants := l2\<rparr>"
    have ad: "AddNode ?s1 n c = Some s2"
      using AddNode_eq [of ?s1 c oc' n] t' g' l by (simp add: s2_def m2_def os2_def l2_def)
    note ai = addNode_inv [OF t' g' cn' pr' l, of n, folded m2_def]
    have n2: "nodesOf m2 = (nodesOf (octs s))(c := nodesOf (octs s) c @ [n])"
      using ai(5) unfolding n' .
    have D2: "\<And>x x2. m2 x = Some x2 \<Longrightarrow> sortDirty x2 \<Longrightarrow> x \<in> set l2"
    proof -
      fix x x2 assume x: "m2 x = Some x2" "sortDirty x2"
      from ai(7) [OF x(1)] x(2) obtain x0 where x0: "m' x = Some x0" "x = c \<or> sortDirty x0" by auto
      show "x \<in> set l2"
      proof (cases "x = c")
        case True
        show ?thesis
        proof (cases "sortDirty oc'")
          case T: True
          from DG [OF l T] True show ?thesis by (simp add: l2_def)
        next
          case F: False then show ?thesis using True by (simp add: l2_def)
        qed
      next
        case F: False
        with x0 have "sortDirty x0" by simp
        from DG [OF x0(1) this] show ?thesis by (simp add: l2_def)
      qed
    qed
    have st2: "stable (octs s) m2"
      unfolding stable_def
    proof (intro allI impI)
      fix b ob ob2 assume b: "octs s b = Some ob" "m2 b = Some ob2"
      from growsD1 [OF gr b(1)] obtain ob' where ob': "m' b = Some ob'" "geomPart ob' = geomPart ob"
        by auto
      from sameShape_SomeD2 [OF ai(6) ob'(1)] b(2) ob'(2) show "geomPart ob2 = geomPart ob" by auto
    qed
    have lc2: "\<exists>oc2. m2 c = Some oc2 \<and> geomPart oc2 = geomPart oc'"
      using sameShape_SomeD2 [OF ai(6) l] by auto
    have bx: "\<And>k. nodeBox (os2 k) = nodeBox (objs s k)" by (simp add: os2_def)
    have oc2n: "octant (os2 n) = Some c" by (simp add: os2_def)
    show ?thesis
    proof (cases "octant (objs s n)")
      case None
      have re: "reinsert s n (nodeBox (objs s n)) (octant (objs s n)) = Some s2"
        unfolding reinsert_def box_def [symmetric] fo using None ad
        by (simp add: RemoveNodeFrom_def)
      have r2: "refs m2 os2" unfolding os2_def using r n2 None by (rule refs_add)
      have c2: "core s2"
      proof (rule coreI)
        show "tree (octs s2)" "geo (octs s2)" "counts (octs s2) {} 0" "pruned (octs s2) {}"
          using ai(1-4) by (simp_all add: s2_def)
        show "refs (octs s2) (objs s2)" using r2 by (simp add: s2_def)
        show "\<And>k. validBox (nodeBox (objs s2 k))" using coreD(6) [OF co] by (simp add: s2_def bx)
        show "\<And>a oc. octs s2 a = Some oc \<Longrightarrow> sortDirty oc \<Longrightarrow> a \<in> set (sortDirtyOctants s2)"
          using D2 by (simp add: s2_def)
      qed
      from lc2 obtain oc2 where oc2: "m2 c = Some oc2" "geomPart oc2 = geomPart oc'" by auto
      have se: "settled s2 n"
      proof (rule settledI)
        show "octant (objs s2 n) = Some c" by (simp add: s2_def oc2n)
        show "octs s2 c = Some oc2" by (simp add: s2_def oc2)
        show "geomPart oc2 = geomPart oc'" by fact
        show "insertHere c oc' (nodeBox (objs s2 n))" using ih by (simp add: s2_def bx box_def)
        show "c \<noteq> root \<longrightarrow> IsInside (cullingBox oc') (nodeBox (objs s2 n)) = INSIDE"
          using ins by (simp add: s2_def bx box_def)
      qed
      have "moved s n s2 c"
        unfolding moved_def using c2 se st2 False
        by (auto simp: s2_def os2_def l2_def)
      with re show ?thesis by blast
    next
      case (Some a)
      then have ne: "a \<noteq> c" using False by auto
      from refs_live [OF r Some] obtain oa where oa: "octs s a = Some oa" "n \<in> set (nodes oa)" by auto
      have "nodesOf m2 a = nodesOf (octs s) a" unfolding n2 using ne by simp
      then have "n \<in> set (nodesOf m2 a)" using oa by (simp add: nodesOf_def)
      from nodesOf_live [OF this] obtain oa2 where oa2: "m2 a = Some oa2" "n \<in> set (nodes oa2)"
        by auto
      define m3 where "m3 = decChain (m2(a \<mapsto> oa2\<lparr>nodes := remove1 n (nodes oa2)\<rparr>)) a"
      define s3 where "s3 = s\<lparr>octs := m3, objs := os2, sortDirtyOctants := l2\<rparr>"
      have rm: "RemoveNodeFrom s2 n (Some a) = Some s3"
        using RemoveNodeFrom_eq [of s2 a oa2 n] ai(1,2) oa2
        by (simp add: s2_def s3_def m3_def)
      have re: "reinsert s n (nodeBox (objs s n)) (octant (objs s n)) = Some s3"
        unfolding reinsert_def box_def [symmetric] fo using Some ne ad rm by simp
      note ri = removeNode_inv [OF ai(1-4) oa2, folded m3_def]
      have n3: "nodesOf m3 = (nodesOf (octs s))(c := nodesOf (octs s) c @ [n],
                                                 a := remove1 n (nodesOf (octs s) a))"
        unfolding ri(5) n2 using ne by simp
      have r3: "refs m3 os2" unfolding os2_def using r n3 Some ne by (rule refs_move)
      have c3: "core s3"
      proof (rule coreI)
        show "tree (octs s3)" "geo (octs s3)" "counts (octs s3) {} 0" "pruned (octs s3) {}"
          using ri(1-4) by (simp_all add: s3_def)
        show "refs (octs s3) (objs s3)" using r3 by (simp add: s3_def)
        show "\<And>k. validBox (nodeBox (objs s3 k))" using coreD(6) [OF co] by (simp add: s3_def bx)
        fix x x3 assume x: "octs s3 x = Some x3" "sortDirty x3"
        then have "m3 x = Some x3" by (simp add: s3_def)
        from shrinksD [OF ri(6) this] x(2) obtain x2 where "m2 x = Some x2" "sortDirty x2" by auto
        from D2 [OF this] show "x \<in> set (sortDirtyOctants s3)" by (simp add: s3_def)
      qed
      have "n \<in> set (nodesOf m3 c)" unfolding n3 using ne by simp
      from nodesOf_live [OF this] obtain oc3 where oc3: "m3 c = Some oc3" by auto
      from shrinksD [OF ri(6) oc3] lc2 have gp3: "geomPart oc3 = geomPart oc'" by auto
      have se: "settled s3 n"
      proof (rule settledI)
        show "octant (objs s3 n) = Some c" by (simp add: s3_def oc2n)
        show "octs s3 c = Some oc3" by (simp add: s3_def oc3)
        show "geomPart oc3 = geomPart oc'" by fact
        show "insertHere c oc' (nodeBox (objs s3 n))" using ih by (simp add: s3_def bx box_def)
        show "c \<noteq> root \<longrightarrow> IsInside (cullingBox oc') (nodeBox (objs s3 n)) = INSIDE"
          using ins by (simp add: s3_def bx box_def)
      qed
      have st3: "stable (octs s) m3"
        unfolding stable_def
      proof (intro allI impI)
        fix b ob ob3 assume b: "octs s b = Some ob" "m3 b = Some ob3"
        from shrinksD [OF ri(6) b(2)] obtain ob2 where ob2: "m2 b = Some ob2" "geomPart ob3 = geomPart ob2"
          by auto
        from st2 b(1) ob2(1) have "geomPart ob2 = geomPart ob" unfolding stable_def by blast
        with ob2(2) show "geomPart ob3 = geomPart ob" by simp
      qed
      have "moved s n s3 c"
        unfolding moved_def using c3 se st3 False
        by (auto simp: s3_def os2_def l2_def)
      with re show ?thesis by blast
    qed
  qed
qed

lemma settled_stable:
  assumes se: "settled s k" and ob: "objs s' k = objs s k" and st: "stable (octs s) (octs s')"
    and r: "refs (octs s') (objs s')"
  shows "settled s' k"
proof -
  from se obtain a oc where a: "octant (objs s k) = Some a" "octs s a = Some oc"
    and cond: "IsInside (cullingBox oc) (nodeBox (objs s k)) = INSIDE \<and>
           FitBoundingBox oc (nodeBox (objs s k)) (Size (nodeBox (objs s k))) \<or>
         a = root \<and> IsInside (cullingBox oc) (nodeBox (objs s k)) \<noteq> INSIDE"
    unfolding settled_def by blast
  have "octant (objs s' k) = Some a" using a ob by simp
  from refs_live [OF r this] obtain oc' where oc': "octs s' a = Some oc'" by auto
  from st a(2) oc' have gp: "geomPart oc' = geomPart oc" unfolding stable_def by blast
  have "cullingBox oc' = cullingBox oc" using geomPart_eq [OF gp] by simp
  then show ?thesis
    unfolding settled_def using a oc' cond ob geomPart_props(5) [OF gp] by auto
qed

lemma core_flags:
  assumes "core s"
  shows "core (s\<lparr>objs := (objs s)(n := (objs s n)\<lparr>updateQueued := q, lastUpdateFrameNumber := f\<rparr>)\<rparr>)"
proof (rule coreI)
  let ?s1 = "s\<lparr>objs := (objs s)(n := (objs s n)\<lparr>updateQueued := q, lastUpdateFrameNumber := f\<rparr>)\<rparr>"
  show "tree (octs ?s1)" "geo (octs ?s1)" "counts (octs ?s1) {} 0" "pruned (octs ?s1) {}"
    using coreD(1-4) [OF assms] by simp_all
  show "refs (octs ?s1) (objs ?s1)" using coreD(5) [OF assms] by (simp add: refs_def)
  show "\<And>k. validBox (nodeBox (objs ?s1 k))" using coreD(6) [OF assms] by simp
  show "\<And>a oc. octs ?s1 a = Some oc \<Longrightarrow> sortDirty oc \<Longrightarrow> a \<in> set (sortDirtyOctants ?s1)"
    using coreD(7) [OF assms] by simp
qed

lemma settled_flags:
  "settled (s\<lparr>objs := (objs s)(n := (objs s n)\<lparr>updateQueued := q, lastUpdateFrameNumber := f\<rparr>)\<rparr>) k
   = settled s k"
  by (simp add: settled_def)

lemma loopInvD:
  assumes "loopInv s P"
  shows "core s" "\<And>a. a \<in> set (sortDirtyOctants s) \<Longrightarrow> \<exists>n\<in>P. octant (objs s n) = Some a"
    "\<And>n. n \<in> P \<Longrightarrow> settled s n"
  using assms unfolding loopInv_def by blast+

lemma updateNode_step:
  assumes li: "loopInv s P"
  shows "\<exists>s'. updateNode f n s = Some s' \<and> loopInv s' (insert n P) \<and> passed f s n s'"
proof -
  define s1 where "s1 = s\<lparr>objs := (objs s)(n := (objs s n)\<lparr>updateQueued := False,
                                          lastUpdateFrameNumber := f\<rparr>)\<rparr>"
  note co = loopInvD(1) [OF li]
  have co1: "core s1" unfolding s1_def using co by (rule core_flags)
  have se1: "\<And>k. settled s1 k = settled s k" unfolding s1_def by (rule settled_flags)
  have f1: "octs s1 = octs s" "sortDirtyOctants s1 = sortDirtyOctants s" "updateQueue s1 = updateQueue s"
    "\<And>k. octant (objs s1 k) = octant (objs s k)" "\<And>k. nodeBox (objs s1 k) = nodeBox (objs s k)"
    "\<And>k. k \<noteq> n \<Longrightarrow> objs s1 k = objs s k"
    "\<not> updateQueued (objs s1 n)" "lastUpdateFrameNumber (objs s1 n) = f"
    by (simp_all add: s1_def)
  have un: "updateNode f n s =
     (case octant (objs s n) of
        None \<Rightarrow> reinsert s1 n (nodeBox (objs s1 n)) (octant (objs s1 n))
      | Some a \<Rightarrow>
          (case octs s a of
             None \<Rightarrow> None
           | Some oc \<Rightarrow>
               (if IsInside (cullingBox oc) (nodeBox (objs s n)) = INSIDE \<and>
                   FitBoundingBox oc (nodeBox (objs s n)) (Size (nodeBox (objs s n)))
                then Some s1
                else reinsert s1 n (nodeBox (objs s1 n)) (octant (objs s1 n)))))"
    unfolding updateNode_def Let_def s1_def [symmetric] f1
    by (simp split: option.splits)
  have keep: "loopInv s1 (insert n P) \<and> passed f s n s1" if "settled s n"
  proof -
    have "loopInv s1 (insert n P)"
      unfolding loopInv_def using co1 loopInvD(2,3) [OF li] that
      by (auto simp: f1 se1)
    moreover have "passed f s n s1"
      unfolding passed_def using f1 by (simp add: stable_refl s1_def)
    ultimately show ?thesis ..
  qed
  show ?thesis
  proof (cases "settled s n")
    case True
    then obtain a oc where a: "octant (objs s n) = Some a" "octs s a = Some oc"
      and cond: "IsInside (cullingBox oc) (nodeBox (objs s n)) = INSIDE \<and>
           FitBoundingBox oc (nodeBox (objs s n)) (Size (nodeBox (objs s n))) \<or>
         a = root \<and> IsInside (cullingBox oc) (nodeBox (objs s n)) \<noteq> INSIDE"
      unfolding settled_def by blast
    have "updateNode f n s = Some s1"
    proof (cases "IsInside (cullingBox oc) (nodeBox (objs s n)) = INSIDE \<and>
           FitBoundingBox oc (nodeBox (objs s n)) (Size (nodeBox (objs s n)))")
      case T: True
      then show ?thesis unfolding un by (simp add: a)
    next
      case False
      with cond have r: "a = root" "IsInside (cullingBox oc) (nodeBox (objs s n)) \<noteq> INSIDE" by auto
      have "insertHere root oc (nodeBox (objs s1 n))" using r(2) by (simp add: insertHere_def f1)
      with a(2) [unfolded r(1)] have "findOctant s1 root (nodeBox (objs s1 n)) = Some (s1, root)"
        by (intro findOctant_stop) (simp_all add: f1)
      then have "reinsert s1 n (nodeBox (objs s1 n)) (octant (objs s1 n)) = Some s1"
        unfolding reinsert_def using a(1) r(1) by (simp add: f1)
      then show ?thesis unfolding un using False by (simp add: a)
    qed
    with keep [OF True] show ?thesis by blast
  next
    case False
    have nP: "n \<notin> P" using False loopInvD(3) [OF li] by blast
    from reinsert_spec [OF co1, of n] obtain s' c where
      re: "reinsert s1 n (nodeBox (objs s1 n)) (octant (objs s1 n)) = Some s'" and mv: "moved s1 n s' c"
      by blast
    have nofast: "octant (objs s n) = Some a \<Longrightarrow> octs s a = Some oc \<Longrightarrow>
        \<not> (IsInside (cullingBox oc) (nodeBox (objs s n)) = INSIDE \<and>
           FitBoundingBox oc (nodeBox (objs s n)) (Size (nodeBox (objs s n))))" for a oc
      using False unfolding settled_def by blast
    have "updateNode f n s = Some s'"
    proof (cases "octant (objs s n)")
      case None
      then show ?thesis unfolding un using re by simp
    next
      case (Some a)
      from refs_live [OF coreD(5) [OF co] Some] obtain oc where oc: "octs s a = Some oc" by auto
      from nofast [OF Some oc] show ?thesis unfolding un using re Some oc by auto
    qed
    moreover
    from mv have m: "updateQueue s' = updateQueue s1"
      "objs s' = (objs s1)(n := (objs s1 n)\<lparr>octant := Some c\<rparr>)" "core s'" "settled s' n"
      "stable (octs s1) (octs s')" "set (sortDirtyOctants s1) \<subseteq> set (sortDirtyOctants s')"
      "set (sortDirtyOctants s') \<subseteq> insert c (set (sortDirtyOctants s1))"
      unfolding moved_def by blast+
    have ok: "\<And>k. k \<noteq> n \<Longrightarrow> objs s' k = objs s k" using m(2) f1(6) by simp
    have "loopInv s' (insert n P)"
      unfolding loopInv_def
    proof (intro conjI ballI)
      show "core s'" by fact
    next
      fix a assume "a \<in> set (sortDirtyOctants s')"
      with m(7) have "a = c \<or> a \<in> set (sortDirtyOctants s)" by (auto simp: f1)
      then show "\<exists>k\<in>insert n P. octant (objs s' k) = Some a"
      proof
        assume "a = c"
        then show ?thesis using m(2) by simp
      next
        assume "a \<in> set (sortDirtyOctants s)"
        from loopInvD(2) [OF li this] obtain k where k: "k \<in> P" "octant (objs s k) = Some a" by auto
        then have "k \<noteq> n" using nP by auto
        from ok [OF this] k have "octant (objs s' k) = Some a" by simp
        with k(1) show ?thesis by blast
      qed
    next
      fix k assume k: "k \<in> insert n P"
      show "settled s' k"
      proof (cases "k = n")
        case True then show ?thesis using m(4) by simp
      next
        case F: False
        then have "settled s k" using k loopInvD(3) [OF li] by auto
        then show ?thesis using ok [OF F] m(5) coreD(5) [OF m(3)]
          by (intro settled_stable [of s k s']) (simp_all add: f1)
      qed
    qed
    moreover have "passed f s n s'"
      unfolding passed_def using m(1,2,5) False f1 by simp
    ultimately show ?thesis by blast
  qed
qed

section \<open>The first loop of Update\<close>

lemma passedD:
  assumes "passed f s n s'"
  shows "updateQueue s' = updateQueue s" "\<And>k. k \<noteq> n \<Longrightarrow> objs s' k = objs s k"
    "\<And>k. nodeBox (objs s' k) = nodeBox (objs s k)" "stable (octs s) (octs s')"
    "\<not> updateQueued (objs s' n)" "lastUpdateFrameNumber (objs s' n) = f"
  using assms unfolding passed_def by blast+

lemma loopedD:
  assumes "looped f s q s'"
  shows "\<And>k. Some k \<notin> set q \<Longrightarrow> objs s' k = objs s k"
    "\<And>k. nodeBox (objs s' k) = nodeBox (objs s k)"
    "\<And>k. Some k \<in> set q \<Longrightarrow> \<not> updateQueued (objs s' k) \<and> lastUpdateFrameNumber (objs s' k) = f"
    "\<And>k b ob. Some k \<notin> set q \<Longrightarrow> octant (objs s k) = Some b \<Longrightarrow> octs s b = Some ob \<Longrightarrow>
        \<exists>ob'. octs s' b = Some ob' \<and> geomPart ob' = geomPart ob"
    "\<And>ob. octs s root = Some ob \<Longrightarrow> \<exists>ob'. octs s' root = Some ob' \<and> geomPart ob' = geomPart ob"
  using assms unfolding looped_def by blast+

lemma looped_Nil: "looped f s [] s"
  unfolding looped_def by simp

lemma looped_None: "looped f s q s' \<Longrightarrow> looped f s (None # q) s'"
  unfolding looped_def by simp

lemma looped_Some:
  assumes p: "passed f s n s1" and c1: "core s1" and l: "looped f s1 q s'"
  shows "looped f s (Some n # q) s'"
  unfolding looped_def
proof (intro conjI allI impI)
  fix k assume "Some k \<notin> set (Some n # q)"
  then have "k \<noteq> n" "Some k \<notin> set q" by auto
  then show "objs s' k = objs s k" using loopedD(1) [OF l] passedD(2) [OF p] by simp
next
  fix k show "nodeBox (objs s' k) = nodeBox (objs s k)"
    using loopedD(2) [OF l] passedD(3) [OF p] by simp
next
  fix k assume k: "Some k \<in> set (Some n # q)"
  show "\<not> updateQueued (objs s' k)" "lastUpdateFrameNumber (objs s' k) = f"
  proof -
    have "\<not> updateQueued (objs s' k) \<and> lastUpdateFrameNumber (objs s' k) = f"
    proof (cases "Some k \<in> set q")
      case True
      then show ?thesis by (rule loopedD(3) [OF l])
    next
      case False
      then have "k = n" using k by simp
      then show ?thesis using loopedD(1) [OF l False] passedD(5,6) [OF p] by simp
    qed
    then show "\<not> updateQueued (objs s' k)" "lastUpdateFrameNumber (objs s' k) = f" by blast+
  qed
next
  fix k b ob assume k: "Some k \<notin> set (Some n # q)" "octant (objs s k) = Some b" "octs s b = Some ob"
  then have kn: "k \<noteq> n" "Some k \<notin> set q" by auto
  have o1: "octant (objs s1 k) = Some b" using passedD(2) [OF p kn(1)] k(2) by simp
  from refs_live [OF coreD(5) [OF c1] o1] obtain ob1 where ob1: "octs s1 b = Some ob1" by auto
  from passedD(4) [OF p] k(3) ob1 have "geomPart ob1 = geomPart ob" unfolding stable_def by blast
  with loopedD(4) [OF l kn(2) o1 ob1]
  show "\<exists>ob'. octs s' b = Some ob' \<and> geomPart ob' = geomPart ob" by auto
next
  fix ob assume r: "octs s root = Some ob"
  from treeD_root [OF coreD(1) [OF c1]] obtain ob1 where ob1: "octs s1 root = Some ob1" by auto
  from passedD(4) [OF p] r ob1 have "geomPart ob1 = geomPart ob" unfolding stable_def by blast
  with loopedD(5) [OF l ob1]
  show "\<exists>ob'. octs s' root = Some ob' \<and> geomPart ob' = geomPart ob" by auto
qed

lemma updateLoop_spec:
  "loopInv s P \<Longrightarrow>
   \<exists>s'. updateLoop f q s = Some s' \<and> loopInv s' (P \<union> {n. Some n \<in> set q}) \<and> looped f s q s' \<and>
        updateQueue s' = updateQueue s"
proof (induction q arbitrary: s P)
  case Nil
  then show ?case by (simp add: looped_Nil)
next
  case (Cons e q)
  show ?case
  proof (cases e)
    case None
    from Cons.IH [OF Cons.prems] obtain s' where
      "updateLoop f q s = Some s'" "loopInv s' (P \<union> {n. Some n \<in> set q})" "looped f s q s'"
      "updateQueue s' = updateQueue s" by blast
    then show ?thesis using None by (auto intro: looped_None)
  next
    case (Some n)
    from updateNode_step [OF Cons.prems, of f n] obtain s1 where
      s1: "updateNode f n s = Some s1" "loopInv s1 (insert n P)" "passed f s n s1" by blast
    from Cons.IH [OF s1(2)] obtain s' where
      s': "updateLoop f q s1 = Some s'" "loopInv s' (insert n P \<union> {n. Some n \<in> set q})"
        "looped f s1 q s'" "updateQueue s' = updateQueue s1" by blast
    have e: "insert n P \<union> {n. Some n \<in> set q} = P \<union> {k. Some k \<in> set (e # q)}"
      using Some by auto
    have "looped f s (e # q) s'"
      unfolding Some using s1(3) loopInvD(1) [OF s1(2)] s'(3) by (rule looped_Some)
    moreover have "updateLoop f (e # q) s = Some s'" using Some s1(1) s'(1) by simp
    ultimately show ?thesis using s'(2,4) passedD(1) [OF s1(3)] unfolding e by auto
  qed
qed

section \<open>The second loop of Update\<close>

lemma cnt_eq_len:
  assumes "finite (dom m)" "finite (dom m')" "\<And>b. length (nodesOf m' b) = length (nodesOf m b)"
  shows "cnt m' a = cnt m a"
proof -
  have "cnt m' a = (\<Sum>b\<in>{b \<in> dom m \<union> dom m'. suffix a b}. int (length (nodesOf m' b)))"
    using assms by (intro cnt_alt) auto
  moreover have "cnt m a = (\<Sum>b\<in>{b \<in> dom m \<union> dom m'. suffix a b}. int (length (nodesOf m b)))"
    using assms by (intro cnt_alt) auto
  ultimately show ?thesis using assms(3) by simp
qed

lemma resortedD:
  assumes "resorted m m'"
  shows "sameShape m m'" "\<And>a. set (nodesOf m' a) = set (nodesOf m a)"
    "\<And>a. length (nodesOf m' a) = length (nodesOf m a)"
    "\<And>a oc oc'. m a = Some oc \<Longrightarrow> m' a = Some oc' \<Longrightarrow> numNodes oc' = numNodes oc"
    "\<And>a oc oc'. m a = Some oc \<Longrightarrow> m' a = Some oc' \<Longrightarrow> sortDirty oc' \<Longrightarrow> sortDirty oc"
  using assms unfolding resorted_def by blast+

lemma resorted_refl: "resorted m m"
  unfolding resorted_def by (simp add: sameShape_refl)

lemma resorted_trans:
  assumes 1: "resorted m m1" and 2: "resorted m1 m2"
  shows "resorted m m2"
  unfolding resorted_def
proof (intro conjI allI impI)
  show "sameShape m m2" using resortedD(1) [OF 1] resortedD(1) [OF 2] by (rule sameShape_trans)
  fix a
  show "set (nodesOf m2 a) = set (nodesOf m a)" using resortedD(2) [OF 1] resortedD(2) [OF 2] by simp
  show "length (nodesOf m2 a) = length (nodesOf m a)"
    using resortedD(3) [OF 1] resortedD(3) [OF 2] by simp
  fix oc oc2 assume a: "m a = Some oc" "m2 a = Some oc2"
  from sameShape_SomeD2 [OF resortedD(1) [OF 1] a(1)] obtain oc1 where oc1: "m1 a = Some oc1" by auto
  show "numNodes oc2 = numNodes oc"
    using resortedD(4) [OF 1 a(1) oc1] resortedD(4) [OF 2 oc1 a(2)] by simp
  assume "sortDirty oc2"
  then show "sortDirty oc"
    using resortedD(5) [OF 1 a(1) oc1] resortedD(5) [OF 2 oc1 a(2)] by simp
qed

lemma resorted_step:
  assumes "m a = Some oc"
  shows "resorted m (m(a \<mapsto> oc\<lparr>nodes := sort (nodes oc), sortDirty := False\<rparr>))"
  unfolding resorted_def
proof (intro conjI allI impI)
  show "sameShape m (m(a \<mapsto> oc\<lparr>nodes := sort (nodes oc), sortDirty := False\<rparr>))"
    using assms by (intro sameShape_upd) (simp_all add: geomPart_def)
qed (use assms in \<open>auto simp: nodesOf_def split: if_splits\<close>)

lemma resorted_wf:
  assumes r: "resorted m m'" and t: "tree m" and g: "geo m" and c: "counts m {} 0"
    and p: "pruned m {}" and rf: "refs m os"
  shows "tree m'" "geo m'" "counts m' {} 0" "pruned m' {}" "refs m' os"
proof -
  note ss = resortedD(1) [OF r]
  show t': "tree m'" using t ss by (rule tree_sameShape)
  show "geo m'" using g ss by (rule geo_sameShape)
  have ce: "\<And>b. cnt m' b = cnt m b"
    using treeD_fin [OF t] treeD_fin [OF t'] resortedD(3) [OF r] by (rule cnt_eq_len)
  show "counts m' {} 0"
  proof (rule countsI)
    fix b oc' assume b: "m' b = Some oc'"
    from sameShape_SomeD [OF ss b] obtain oc where oc: "m b = Some oc" by auto
    from countsD [OF c oc] resortedD(4) [OF r oc b]
    show "numNodes oc' = cnt m' b + (if b \<in> {} then 0 else 0)" by (simp add: ce)
  qed
  show "pruned m' {}"
  proof (rule prunedI)
    fix b oc' assume b: "m' b = Some oc'" "b \<noteq> root"
    from sameShape_SomeD [OF ss b(1)] obtain oc where oc: "m b = Some oc" by auto
    from prunedD [OF p oc b(2)] show "0 < cnt m' b" by (simp add: ce)
  qed
  show "refs m' os"
  proof (rule refsI)
    fix a
    have "card (set (nodesOf m' a)) = length (nodesOf m' a)"
      using refsD(1) [OF rf, of a] resortedD(2,3) [OF r, of a] by (simp add: distinct_card)
    then show "distinct (nodesOf m' a)" by (rule card_distinct)
    fix n show "(n \<in> set (nodesOf m' a)) = (octant (os n) = Some a)"
      using refsD(2) [OF rf, of n a] resortedD(2) [OF r, of a] by simp
  qed
qed

lemma sortLoop_spec:
  "(\<And>a. a \<in> set l \<Longrightarrow> octs s a \<noteq> None) \<Longrightarrow>
   \<exists>m'. sortLoop l s = Some (s\<lparr>octs := m'\<rparr>) \<and> resorted (octs s) m' \<and>
        (\<forall>a oc'. m' a = Some oc' \<longrightarrow> sortDirty oc' \<longrightarrow> a \<notin> set l)"
proof (induction l arbitrary: s)
  case Nil
  have "s\<lparr>octs := octs s\<rparr> = s" by simp
  then show ?case using resorted_refl [of "octs s"] by (intro exI [of _ "octs s"]) simp
next
  case (Cons a l)
  from Cons.prems [of a] obtain oc where oc: "octs s a = Some oc" by auto
  define m1 where "m1 = (octs s)(a \<mapsto> oc\<lparr>nodes := sort (nodes oc), sortDirty := False\<rparr>)"
  have r1: "resorted (octs s) m1" unfolding m1_def using oc by (rule resorted_step)
  have live: "\<And>b. b \<in> set l \<Longrightarrow> octs (s\<lparr>octs := m1\<rparr>) b \<noteq> None"
    using Cons.prems by (auto simp: m1_def)
  from Cons.IH [OF live] obtain m' where
    m': "sortLoop l (s\<lparr>octs := m1\<rparr>) = Some (s\<lparr>octs := m'\<rparr>)" "resorted m1 m'"
      "\<forall>b oc'. m' b = Some oc' \<longrightarrow> sortDirty oc' \<longrightarrow> b \<notin> set l"
    by auto
  have e: "sortLoop (a # l) s = Some (s\<lparr>octs := m'\<rparr>)"
    using oc m'(1) by (simp add: m1_def)
  have r: "resorted (octs s) m'" using r1 m'(2) by (rule resorted_trans)
  have "\<forall>b oc'. m' b = Some oc' \<longrightarrow> sortDirty oc' \<longrightarrow> b \<notin> set (a # l)"
  proof (intro allI impI)
    fix b oc' assume b: "m' b = Some oc'" "sortDirty oc'"
    have "b \<noteq> a"
    proof
      assume "b = a"
      have "m1 a = Some (oc\<lparr>nodes := sort (nodes oc), sortDirty := False\<rparr>)" by (simp add: m1_def)
      from resortedD(5) [OF m'(2) this b(1) [unfolded \<open>b = a\<close>] b(2)] show False by simp
    qed
    with m'(3) b show "b \<notin> set (a # l)" by simp
  qed
  with e r show ?case by blast
qed

section \<open>Update keeps the octree well-formed\<close>

lemma wfD:
  assumes "wellFormed s"
  shows "tree (octs s)" "geo (octs s)" "counts (octs s) {} 0" "pruned (octs s) {}"
    "refs (octs s) (objs s)" "validBox (nodeBox (objs s n))" "sortDirtyOctants s = []"
    "\<And>a oc. octs s a = Some oc \<Longrightarrow> \<not> sortDirty oc"
  using assms unfolding wellFormed_def by blast+

lemma wfI:
  assumes "tree (octs s)" "geo (octs s)" "counts (octs s) {} 0" "pruned (octs s) {}"
    "refs (octs s) (objs s)" "\<And>n. validBox (nodeBox (objs s n))" "sortDirtyOctants s = []"
    "\<And>a oc. octs s a = Some oc \<Longrightarrow> \<not> sortDirty oc"
  shows "wellFormed s"
  using assms unfolding wellFormed_def by blast

lemma wf_core: "wellFormed s \<Longrightarrow> core s"
  by (rule coreI) (auto dest: wfD)

lemma wf_loopInv: "wellFormed s \<Longrightarrow> loopInv s {}"
  unfolding loopInv_def by (auto dest: wf_core wfD(7))

lemma Update_spec:
  assumes w: "wellFormed s"
  shows "\<exists>s'. Update f s = Some s' \<and> wellFormed s' \<and> updateQueue s' = [] \<and>
           looped f s (updateQueue s) s' \<and> (\<forall>k. Some k \<in> set (updateQueue s) \<longrightarrow> settled s' k)"
proof -
  from updateLoop_spec [OF wf_loopInv [OF w], of f "updateQueue s"] obtain s1 where
    s1: "updateLoop f (updateQueue s) s = Some s1"
      "loopInv s1 ({} \<union> {n. Some n \<in> set (updateQueue s)})" "looped f s (updateQueue s) s1"
    by blast
  note c1 = loopInvD(1) [OF s1(2)]
  let ?s1' = "s1\<lparr>updateQueue := []\<rparr>"
  have live: "\<And>a. a \<in> set (sortDirtyOctants s1) \<Longrightarrow> octs ?s1' a \<noteq> None"
  proof -
    fix a assume "a \<in> set (sortDirtyOctants s1)"
    from loopInvD(2) [OF s1(2) this] obtain n where "octant (objs s1 n) = Some a" by auto
    from refs_live [OF coreD(5) [OF c1] this] show "octs ?s1' a \<noteq> None" by auto
  qed
  from sortLoop_spec [of "sortDirtyOctants s1" ?s1', OF live] obtain m' where
    m': "sortLoop (sortDirtyOctants s1) ?s1' = Some (?s1'\<lparr>octs := m'\<rparr>)" "resorted (octs s1) m'"
      "\<forall>a oc'. m' a = Some oc' \<longrightarrow> sortDirty oc' \<longrightarrow> a \<notin> set (sortDirtyOctants s1)"
    by auto
  define s' where "s' = s1\<lparr>updateQueue := [], octs := m', sortDirtyOctants := []\<rparr>"
  have f': "octs s' = m'" "objs s' = objs s1" "updateQueue s' = []" "sortDirtyOctants s' = []"
    by (simp_all add: s'_def)
  have up: "Update f s = Some s'"
    unfolding Update_def s1(1) using m'(1) by (simp add: s'_def)
  note rw = resorted_wf [OF m'(2) coreD(1-5) [OF c1]]
  have w': "wellFormed s'"
  proof (rule wfI)
    show "tree (octs s')" "geo (octs s')" "counts (octs s') {} 0" "pruned (octs s') {}"
      "refs (octs s') (objs s')" using rw by (simp_all add: f')
    show "\<And>n. validBox (nodeBox (objs s' n))" using coreD(6) [OF c1] by (simp add: f')
    show "sortDirtyOctants s' = []" by (simp add: f')
    fix a oc' assume a: "octs s' a = Some oc'"
    show "\<not> sortDirty oc'"
    proof
      assume d: "sortDirty oc'"
      from a have ma: "m' a = Some oc'" by (simp add: f')
      from sameShape_SomeD [OF resortedD(1) [OF m'(2)] ma] obtain oc where oc: "octs s1 a = Some oc"
        by auto
      from resortedD(5) [OF m'(2) oc ma d] have "sortDirty oc" .
      from coreD(7) [OF c1 oc this] m'(3) ma d show False by blast
    qed
  qed
  have st: "stable (octs s1) (octs s')"
    unfolding f' using resortedD(1) [OF m'(2)] by (rule stable_sameShape)
  have lo: "looped f s (updateQueue s) s'"
    unfolding looped_def
  proof (intro conjI allI impI)
    fix k assume "Some k \<notin> set (updateQueue s)"
    then show "objs s' k = objs s k" using loopedD(1) [OF s1(3)] by (simp add: f')
  next
    fix k show "nodeBox (objs s' k) = nodeBox (objs s k)" using loopedD(2) [OF s1(3)] by (simp add: f')
  next
    fix k assume "Some k \<in> set (updateQueue s)"
    from loopedD(3) [OF s1(3) this]
    show "\<not> updateQueued (objs s' k)" "lastUpdateFrameNumber (objs s' k) = f" by (simp_all add: f')
  next
    fix k b ob assume "Some k \<notin> set (updateQueue s)" "octant (objs s k) = Some b" "octs s b = Some ob"
    from loopedD(4) [OF s1(3) this] obtain ob1 where ob1: "octs s1 b = Some ob1" "geomPart ob1 = geomPart ob"
      by auto
    from sameShape_SomeD2 [OF resortedD(1) [OF m'(2)] ob1(1)] ob1(2)
    show "\<exists>ob'. octs s' b = Some ob' \<and> geomPart ob' = geomPart ob" by (auto simp: f')
  next
    fix ob assume "octs s root = Some ob"
    from loopedD(5) [OF s1(3) this] obtain ob1 where ob1: "octs s1 root = Some ob1" "geomPart ob1 = geomPart ob"
      by auto
    from sameShape_SomeD2 [OF resortedD(1) [OF m'(2)] ob1(1)] ob1(2)
    show "\<exists>ob'. octs s' root = Some ob' \<and> geomPart ob' = geomPart ob" by (auto simp: f')
  qed
  have se: "\<forall>k. Some k \<in> set (updateQueue s) \<longrightarrow> settled s' k"
  proof (intro allI impI)
    fix k assume "Some k \<in> set (updateQueue s)"
    then have "settled s1 k" using loopInvD(3) [OF s1(2)] by simp
    then show "settled s' k"
      using st rw(5) by (intro settled_stable [of s1 k s']) (simp_all add: f')
  qed
  show ?thesis using up w' f'(3) lo se by blast
qed

section \<open>The other operations keep the octree well-formed\<close>

lemma wf_Octree_new:
  assumes "\<And>n. octant (os n) = None" "\<And>n. validBox (nodeBox (os n))"
  shows "wellFormed (Octree_new os)"
proof (rule wfI)
  let ?r = "Initialize None
           (BoundingBox (Vector3 (- DEFAULT_OCTREE_SIZE) (- DEFAULT_OCTREE_SIZE) (- DEFAULT_OCTREE_SIZE))
                        (Vector3 DEFAULT_OCTREE_SIZE DEFAULT_OCTREE_SIZE DEFAULT_OCTREE_SIZE))
           DEFAULT_OCTREE_LEVELS Octant_new"
  have m: "octs (Octree_new os) = (\<lambda>_. None)(root \<mapsto> ?r)" by (simp add: Octree_new_def)
  have at: "\<And>a oc. octs (Octree_new os) a = Some oc \<Longrightarrow> a = root \<and> oc = ?r"
    unfolding m by (auto split: if_splits)
  show "tree (octs (Octree_new os))"
  proof (rule treeI)
    show "finite (dom (octs (Octree_new os)))" unfolding m by simp
    show "\<exists>oc. octs (Octree_new os) root = Some oc" unfolding m by simp
    show "\<And>a i oc. octs (Octree_new os) (i # a) = Some oc \<Longrightarrow>
        \<exists>poc. octs (Octree_new os) a = Some poc \<and> children poc i = Some (i # a)"
      by (auto dest: at simp: root_def)
    show "\<And>a oc i c. octs (Octree_new os) a = Some oc \<Longrightarrow> children oc i = Some c \<Longrightarrow>
        c = i # a \<and> (\<exists>coc. octs (Octree_new os) c = Some coc)"
      by (auto dest!: at simp: Initialize_fields Octant_new_def)
    show "\<And>a oc. octs (Octree_new os) a = Some oc \<Longrightarrow>
        parent oc = (case a of [] \<Rightarrow> None | i # p \<Rightarrow> Some p)"
      by (auto dest!: at simp: Initialize_fields root_def)
  qed
  show "geo (octs (Octree_new os))"
    by (rule geoI) (auto dest!: at simp: derived_Initialize root_def)
  have n: "nodesOf (octs (Octree_new os)) = (\<lambda>_. [])"
    unfolding m by (auto simp: nodesOf_def fun_eq_iff Initialize_fields Octant_new_def)
  have c0: "\<And>a. cnt (octs (Octree_new os)) a = 0" by (simp add: cnt_def n)
  show "counts (octs (Octree_new os)) {} 0"
    by (rule countsI) (auto dest!: at simp: c0 Initialize_fields Octant_new_def)
  show "pruned (octs (Octree_new os)) {}"
    by (rule prunedI) (auto dest!: at)
  have o: "objs (Octree_new os) = os" by (simp add: Octree_new_def)
  show "refs (octs (Octree_new os)) (objs (Octree_new os))"
    by (rule refsI) (simp_all add: n o assms)
  show "\<And>n. validBox (nodeBox (objs (Octree_new os) n))" using assms by (simp add: Octree_new_def)
  show "sortDirtyOctants (Octree_new os) = []" by (simp add: Octree_new_def)
  show "\<And>a oc. octs (Octree_new os) a = Some oc \<Longrightarrow> \<not> sortDirty oc"
    by (auto dest!: at simp: Initialize_fields Octant_new_def)
qed

lemma wf_objs_upd:
  assumes w: "wellFormed s" and o: "octant r = octant (objs s n)" and v: "validBox (nodeBox r)"
  shows "wellFormed (s\<lparr>updateQueue := q, objs := (objs s)(n := r)\<rparr>)"
proof (rule wfI)
  let ?s' = "s\<lparr>updateQueue := q, objs := (objs s)(n := r)\<rparr>"
  show "tree (octs ?s')" "geo (octs ?s')" "counts (octs ?s') {} 0" "pruned (octs ?s') {}"
    using wfD(1-4) [OF w] by simp_all
  show "refs (octs ?s') (objs ?s')" using wfD(5) [OF w] o by (simp add: refs_def)
  show "\<And>k. validBox (nodeBox (objs ?s' k))" using wfD(6) [OF w] v by simp
  show "sortDirtyOctants ?s' = []" using wfD(7) [OF w] by simp
  show "\<And>a oc. octs ?s' a = Some oc \<Longrightarrow> \<not> sortDirty oc" using wfD(8) [OF w] by simp
qed

lemma wf_QueueUpdate: "wellFormed s \<Longrightarrow> wellFormed (QueueUpdate n s)"
  unfolding QueueUpdate_def
  using wf_objs_upd [of s "(objs s n)\<lparr>updateQueued := True\<rparr>" n "updateQueue s @ [Some n]"]
  by (simp add: wfD(6))

lemma wf_CancelUpdate: "wellFormed s \<Longrightarrow> wellFormed (CancelUpdate n s)"
  unfolding CancelUpdate_def
  using wf_objs_upd [of s "(objs s n)\<lparr>updateQueued := False\<rparr>" n "tombstone n (updateQueue s)"]
  by (simp add: wfD(6))

lemma wf_move:
  "wellFormed s \<Longrightarrow> validBox b \<Longrightarrow> wellFormed (s\<lparr>objs := (objs s)(n := (objs s n)\<lparr>nodeBox := b\<rparr>)\<rparr>)"
  using wf_objs_upd [of s "(objs s n)\<lparr>nodeBox := b\<rparr>" n "updateQueue s"]
  by simp

lemma refs_remove:
  assumes r: "refs m os"
    and n': "nodesOf m' = (nodesOf m)(a := remove1 n (nodesOf m a))"
    and o: "octant (os n) = Some a" and o': "octant (os' n) = None"
    and k: "\<And>k. k \<noteq> n \<Longrightarrow> os' k = os k"
  shows "refs m' os'"
proof (rule refsI)
  have nin: "\<And>b. b \<noteq> a \<Longrightarrow> n \<notin> set (nodesOf m b)" using o by (simp add: refsD [OF r])
  fix b show "distinct (nodesOf m' b)"
    unfolding n' using refsD(1) [OF r, of b] by auto
  fix j show "(j \<in> set (nodesOf m' b)) = (octant (os' j) = Some b)"
  proof (cases "j = n")
    case True
    then show ?thesis unfolding n' using o' nin [of b] refsD(1) [OF r, of a] by auto
  next
    case False
    then show ?thesis unfolding n' using k [OF False] refsD(2) [OF r, of j b] by auto
  qed
qed

lemma refs_same:
  assumes r: "refs m os" and k: "\<And>k. octant (os' k) = octant (os k)"
  shows "refs m os'"
  using r unfolding refs_def by (simp add: k)

lemma RemoveNode_fields:
  assumes "RemoveNodeFrom s n (octant (objs s n)) = Some s1"
  shows "\<exists>s'. RemoveNode n s = Some s' \<and> octs s' = octs s1 \<and> sortDirtyOctants s' = sortDirtyOctants s1 \<and>
     octant (objs s' n) = None \<and> nodeBox (objs s' n) = nodeBox (objs s1 n) \<and>
     (\<forall>k. k \<noteq> n \<longrightarrow> objs s' k = objs s1 k) \<and>
     updateQueue s' = (if updateQueued (objs s1 n) then tombstone n (updateQueue s1) else updateQueue s1)"
  unfolding RemoveNode_def assms by (simp add: Let_def CancelUpdate_def)

lemma RemoveNode_spec:
  assumes w: "wellFormed s"
  shows "\<exists>s'. RemoveNode n s = Some s' \<and> wellFormed s' \<and> octant (objs s' n) = None \<and>
     (\<forall>k. k \<noteq> n \<longrightarrow> objs s' k = objs s k) \<and>
     (\<forall>a b ob. octant (objs s n) = Some a \<longrightarrow> suffix b a \<longrightarrow> b \<noteq> root \<longrightarrow>
        octs s b = Some ob \<longrightarrow> numNodes ob = 1 \<longrightarrow> octs s' b = None)"
proof (cases "octant (objs s n)")
  case None
  then have "RemoveNodeFrom s n (octant (objs s n)) = Some s" by (simp add: RemoveNodeFrom_def)
  from RemoveNode_fields [OF this] obtain s' where
    s': "RemoveNode n s = Some s'" "octs s' = octs s" "sortDirtyOctants s' = sortDirtyOctants s"
      "octant (objs s' n) = None" "nodeBox (objs s' n) = nodeBox (objs s n)"
      "\<forall>k. k \<noteq> n \<longrightarrow> objs s' k = objs s k" by blast
  have ok: "\<And>k. octant (objs s' k) = octant (objs s k)" using s'(4,6) None by (case_tac "k = n") auto
  have bx: "\<And>k. nodeBox (objs s' k) = nodeBox (objs s k)" using s'(5,6) by (case_tac "k = n") auto
  have "wellFormed s'"
  proof (rule wfI)
    show "tree (octs s')" "geo (octs s')" "counts (octs s') {} 0" "pruned (octs s') {}"
      using wfD(1-4) [OF w] by (simp_all add: s'(2))
    show "refs (octs s') (objs s')" unfolding s'(2) using wfD(5) [OF w] ok by (rule refs_same)
    show "\<And>k. validBox (nodeBox (objs s' k))" using wfD(6) [OF w] by (simp add: bx)
    show "sortDirtyOctants s' = []" using wfD(7) [OF w] by (simp add: s'(3))
    show "\<And>a oc. octs s' a = Some oc \<Longrightarrow> \<not> sortDirty oc" using wfD(8) [OF w] by (simp add: s'(2))
  qed
  then show ?thesis using s'(1,4,6) None by auto
next
  case (Some a)
  note t = wfD(1) [OF w] and g = wfD(2) [OF w] and c = wfD(3) [OF w] and p = wfD(4) [OF w]
    and r = wfD(5) [OF w]
  from refs_live [OF r Some] obtain oa where oa: "octs s a = Some oa" "n \<in> set (nodes oa)" by auto
  define m' where "m' = decChain ((octs s)(a \<mapsto> oa\<lparr>nodes := remove1 n (nodes oa)\<rparr>)) a"
  have "RemoveNodeFrom s n (octant (objs s n)) = Some (s\<lparr>octs := m'\<rparr>)"
    unfolding Some m'_def using t g oa by (rule RemoveNodeFrom_eq)
  from RemoveNode_fields [OF this] obtain s' where
    s': "RemoveNode n s = Some s'" "octs s' = m'" "sortDirtyOctants s' = sortDirtyOctants s"
      "octant (objs s' n) = None" "nodeBox (objs s' n) = nodeBox (objs s n)"
      "\<forall>k. k \<noteq> n \<longrightarrow> objs s' k = objs s k" by auto
  note ri = removeNode_inv [OF t g c p oa, folded m'_def]
  have bx: "\<And>k. nodeBox (objs s' k) = nodeBox (objs s k)" using s'(5,6) by (case_tac "k = n") auto
  have w': "wellFormed s'"
  proof (rule wfI)
    show "tree (octs s')" "geo (octs s')" "counts (octs s') {} 0" "pruned (octs s') {}"
      using ri(1-4) by (simp_all add: s'(2))
    show "refs (octs s') (objs s')"
      unfolding s'(2) using r ri(5) Some s'(4) s'(6) [rule_format] by (rule refs_remove)
    show "\<And>k. validBox (nodeBox (objs s' k))" using wfD(6) [OF w] by (simp add: bx)
    show "sortDirtyOctants s' = []" using wfD(7) [OF w] by (simp add: s'(3))
    fix b oc' assume "octs s' b = Some oc'"
    then have "m' b = Some oc'" by (simp add: s'(2))
    from shrinksD [OF ri(6) this] wfD(8) [OF w] show "\<not> sortDirty oc'" by auto
  qed
  have fr: "\<forall>a' b ob. octant (objs s n) = Some a' \<longrightarrow> suffix b a' \<longrightarrow> b \<noteq> root \<longrightarrow>
        octs s b = Some ob \<longrightarrow> numNodes ob = 1 \<longrightarrow> octs s' b = None"
  proof (intro allI impI)
    fix a' b ob assume h: "octant (objs s n) = Some a'" "suffix b a'" "b \<noteq> root"
      "octs s b = Some ob" "numNodes ob = 1"
    then have sb: "suffix b a" using Some by simp
    have len: "int (length (remove1 n (nodesOf (octs s) a))) - int (length (nodesOf (octs s) a)) = - 1"
    proof -
      have "0 < length (nodes oa)" using oa(2) by (cases "nodes oa") auto
      then have "int (length (nodes oa) - 1) - int (length (nodes oa)) = - 1" by arith
      then show ?thesis using oa by (simp add: nodesOf_def length_remove1)
    qed
    have "cnt m' b = cnt (octs s) b - 1"
      using cnt_upd [OF treeD_fin [OF t] treeD_fin [OF ri(1)] ri(5), of b] sb len by simp
    moreover have "cnt (octs s) b = 1" using countsD [OF c h(4)] h(5) by simp
    ultimately have z: "cnt m' b = 0" by simp
    show "octs s' b = None"
    proof (cases "m' b")
      case None then show ?thesis by (simp add: s'(2))
    next
      case (Some x)
      from prunedD [OF ri(4) Some h(3)] z show ?thesis by simp
    qed
  qed
  show ?thesis using s'(1,4,6) w' fr by blast
qed

section \<open>Deleting a branch\<close>

lemma DeleteChildOctants_None: "DeleteChildOctants s None = Some s"
  by (simp add: DeleteChildOctants.simps)

lemma childPtr_clearChild: "i \<noteq> j \<Longrightarrow> childPtr (clearChild s a i) a j = childPtr s a j"
  by (auto simp: childPtr_def clearChild_def split: option.splits)

lemma DeleteChildOctants_unfold:
  assumes "octs s a = Some oc"
  shows "DeleteChildOctants s (Some a) =
     Option.bind (delKids (s\<lparr>objs := clearNodes (nodes oc) (objs s),
                            octs := (octs s)(a \<mapsto> oc\<lparr>nodes := [], numNodes := 0\<rparr>)\<rparr>) a [0, 1, 2, 3, 4, 5, 6, 7])
       (\<lambda>s'. Some (freeOctant s' a))"
proof -
  let ?s1 = "s\<lparr>objs := clearNodes (nodes oc) (objs s),
               octs := (octs s)(a \<mapsto> oc\<lparr>nodes := [], numNodes := 0\<rparr>)\<rparr>"
  have c0: "childPtr ?s1 a 0 = children oc 0" by (simp add: childPtr_def)
  show ?thesis
    apply (subst DeleteChildOctants.simps)
    apply (simp add: assms c0 childPtr_clearChild)
    done
qed

lemma clr_clr: "clr (clr r) = clr r"
  by (simp add: clr_def)

lemma clearNodes_apply:
  "clearNodes ns os k = (if k \<in> set ns then clr (os k) else os k)"
proof (induction ns arbitrary: os)
  case Nil
  then show ?case by (simp add: clearNodes_def)
next
  case (Cons n ns)
  have "clearNodes (n # ns) os k = clearNodes ns (os(n := clr (os n))) k"
    by (simp add: clearNodes_def clr_def)
  also have "\<dots> = (if k \<in> set ns then clr ((os(n := clr (os n))) k) else (os(n := clr (os n))) k)"
    by (rule Cons.IH)
  also have "\<dots> = (if k \<in> set (n # ns) then clr (os k) else os k)"
    by (simp add: clr_clr)
  finally show ?case .
qed

lemma sfx_below: "suffix (i # a) b \<Longrightarrow> suffix a b \<and> b \<noteq> a"
  by (auto simp: suffix_def)

lemma sfx_same: "suffix (j # a) b \<Longrightarrow> suffix (i # a) b \<Longrightarrow> j = i"
proof -
  assume "suffix (j # a) b" "suffix (i # a) b"
  then obtain xs ys where "b = xs @ j # a" "b = ys @ i # a" by (auto simp: suffix_def)
  then have "xs @ [j] @ a = ys @ [i] @ a" by simp
  then have "xs @ [j] = ys @ [i]" by (simp only: append_assoc [symmetric] same_append_eq append_same_eq)
  then show "j = i" by simp
qed

lemma sfx_strict: "suffix a b \<Longrightarrow> b \<noteq> a \<Longrightarrow> \<exists>j. suffix (j # a) b"
proof -
  assume "suffix a b" "b \<noteq> a"
  then obtain xs where b: "b = xs @ a" "xs \<noteq> []" by (auto simp: suffix_def)
  then obtain ys j where "xs = ys @ [j]" by (metis rev_exhaust)
  with b have "b = ys @ j # a" by simp
  then show ?thesis by (auto simp: suffix_def)
qed

lemma subtreeD:
  assumes "subtreeOK m a"
  shows "finite (dom m)" "\<exists>oc. m a = Some oc"
    "\<And>b i. suffix a b \<Longrightarrow> m (i # b) \<noteq> None \<Longrightarrow> \<exists>oc. m b = Some oc \<and> children oc i = Some (i # b)"
    "\<And>b oc i c. suffix a b \<Longrightarrow> m b = Some oc \<Longrightarrow> children oc i = Some c \<Longrightarrow>
        c = i # b \<and> m c \<noteq> None \<and> i < 8"
  using assms unfolding subtreeOK_def by blast+

lemma subtree_dead:
  assumes ok: "subtreeOK m a" and b: "suffix a b" and d: "m b = None"
  shows "suffix b x \<Longrightarrow> m x = None"
proof (induction x)
  case Nil
  then show ?case using d by simp
next
  case (Cons j q)
  show ?case
  proof (cases "b = j # q")
    case True then show ?thesis using d by simp
  next
    case False
    with Cons.prems have bq: "suffix b q" by (simp add: suffix_Cons)
    then have q: "m q = None" by (rule Cons.IH)
    have "suffix a q" using b bq by (rule suffix_order.trans)
    show ?thesis
    proof (cases "m (j # q)")
      case None then show ?thesis .
    next
      case (Some y)
      then have "m (j # q) \<noteq> None" by simp
      from subtreeD(3) [OF ok \<open>suffix a q\<close> this] q show ?thesis by simp
    qed
  qed
qed

lemma subtree_slot_dead:
  assumes ok: "subtreeOK m a" and a: "m a = Some oc" and n: "children oc i = None"
  shows "suffix (i # a) x \<Longrightarrow> m x = None"
proof -
  assume x: "suffix (i # a) x"
  have d: "m (i # a) = None"
  proof (cases "m (i # a)")
    case None then show ?thesis .
  next
    case (Some y)
    then have "m (i # a) \<noteq> None" by simp
    from subtreeD(3) [OF ok suffix_order.refl this] a n show ?thesis by simp
  qed
  have "suffix a (i # a)" by (simp add: suffix_Cons)
  from subtree_dead [OF ok this d x] show ?thesis .
qed

lemma subtree_big_dead:
  assumes ok: "subtreeOK m a" and a: "m a = Some oc" and i: "\<not> i < 8"
  shows "suffix (i # a) x \<Longrightarrow> m x = None"
proof (rule subtree_slot_dead [OF ok a])
  show "children oc i = None"
  proof (cases "children oc i")
    case None then show ?thesis .
  next
    case (Some c)
    from subtreeD(4) [OF ok suffix_order.refl a Some] i show ?thesis by simp
  qed
qed

lemma subtree_child:
  assumes ok: "subtreeOK m a" and a: "m a = Some oc" and c: "children oc i = Some c"
  shows "subtreeOK m c" "c = i # a"
proof -
  from subtreeD(4) [OF ok suffix_order.refl a c] have ci: "c = i # a" and l: "m c \<noteq> None" by auto
  show "c = i # a" by fact
  have s: "\<And>b. suffix c b \<Longrightarrow> suffix a b" unfolding ci by (auto dest: sfx_below)
  show "subtreeOK m c"
    unfolding subtreeOK_def
    using subtreeD(1) [OF ok] l subtreeD(3) [OF ok s] subtreeD(4) [OF ok s] by blast
qed

lemma subtreeOK_cong:
  assumes ok: "subtreeOK m c" and f: "finite (dom m')" and e: "\<And>b. suffix c b \<Longrightarrow> m' b = m b"
  shows "subtreeOK m' c"
  unfolding subtreeOK_def
proof (intro conjI allI impI)
  show "finite (dom m')" by fact
  show "m' c \<noteq> None" using subtreeD(2) [OF ok] e [of c] by auto
next
  fix b i assume b: "suffix c b" "m' (i # b) \<noteq> None"
  have "suffix c (i # b)" using b(1) by (simp add: suffix_Cons)
  then have "m (i # b) \<noteq> None" using b(2) e by simp
  from subtreeD(3) [OF ok b(1) this] e [OF b(1)]
  show "\<exists>oc. m' b = Some oc \<and> children oc i = Some (i # b)" by simp
next
  fix b oc i x assume b: "suffix c b" "m' b = Some oc" "children oc i = Some x"
  then have "m b = Some oc" using e by simp
  from subtreeD(4) [OF ok b(1) this b(3)] have x: "x = i # b" "m x \<noteq> None" "i < 8" by auto
  have "suffix c x" unfolding x(1) using b(1) by (simp add: suffix_Cons)
  then show "x = i # b" "m' x \<noteq> None" "i < 8" using x e by simp_all
qed

lemma tree_subtreeOK:
  assumes t: "tree m" and g: "geo m"
  shows "subtreeOK m root"
  unfolding subtreeOK_def
proof (intro conjI allI impI)
  show "finite (dom m)" using t by (rule treeD_fin)
  show "m root \<noteq> None" using treeD_root [OF t] by auto
next
  fix b i assume "m (i # b) \<noteq> None"
  then obtain y where "m (i # b) = Some y" by auto
  from treeD_up [OF t this] show "\<exists>oc. m b = Some oc \<and> children oc i = Some (i # b)" .
next
  fix b oc i c assume b: "m b = Some oc" "children oc i = Some c"
  from treeD_slot [OF t b] obtain coc where c: "c = i # b" "m c = Some coc" by auto
  from geoD_child [OF g c(2) [unfolded c(1)]] b(1) have "ChildIndex oc (center coc) = i" by auto
  then have "i < 8" using ChildIndex_lt8 [of oc "center coc"] by simp
  with c show "c = i # b" "m c \<noteq> None" "i < 8" by simp_all
qed

lemma state_eqI:
  "octs s1 = octs s2 \<Longrightarrow> objs s1 = objs s2 \<Longrightarrow> updateQueue s1 = updateQueue s2 \<Longrightarrow>
   sortDirtyOctants s1 = sortDirtyOctants s2 \<Longrightarrow> (s1 :: 'f Octree) = s2"
  by simp

lemma kidsDeleted_fields:
  "octs (kidsDeleted s a oc J) =
     (\<lambda>b. if b = a
           then Some (oc\<lparr>children := (\<lambda>i. if i \<in> J then None else children oc i),
                        nodes := [], numNodes := 0\<rparr>)
           else if \<exists>j\<in>J. suffix (j # a) b then None
           else octs s b)"
  "objs (kidsDeleted s a oc J) =
     (\<lambda>k. if k \<in> set (nodes oc) \<or> (\<exists>j\<in>J. k \<in> branchObjs (octs s) (j # a))
           then clr (objs s k) else objs s k)"
  "updateQueue (kidsDeleted s a oc J) = updateQueue s"
  "sortDirtyOctants (kidsDeleted s a oc J) = sortDirtyOctants s"
  by (simp_all add: kidsDeleted_def)

lemma deleted_fields:
  "octs (deleted s a) =
     (\<lambda>b. if suffix a b
           then (if b = root
                 then map_option (\<lambda>oc. oc\<lparr>children := (\<lambda>_. None), nodes := [], numNodes := 0\<rparr>) (octs s b)
                 else None)
           else octs s b)"
  "objs (deleted s a) = (\<lambda>k. if k \<in> branchObjs (octs s) a then clr (objs s k) else objs s k)"
  "updateQueue (deleted s a) = updateQueue s"
  "sortDirtyOctants (deleted s a) = sortDirtyOctants s"
  by (simp_all add: deleted_def)

lemma clearChild_fields:
  "octs (clearChild s a i) =
     (case octs s a of None \<Rightarrow> octs s
      | Some oc \<Rightarrow> (octs s)(a \<mapsto> oc\<lparr>children := (children oc)(i := None)\<rparr>))"
  "objs (clearChild s a i) = objs s"
  "updateQueue (clearChild s a i) = updateQueue s"
  "sortDirtyOctants (clearChild s a i) = sortDirtyOctants s"
  by (simp_all add: clearChild_def split: option.splits)

lemma freeOctant_fields:
  "octs (freeOctant s a) = (if a \<noteq> root then (octs s)(a := None) else octs s)"
  "objs (freeOctant s a) = objs s"
  "updateQueue (freeOctant s a) = updateQueue s"
  "sortDirtyOctants (freeOctant s a) = sortDirtyOctants s"
  by (simp_all add: freeOctant_def)

lemma kids_start:
  assumes "octs s a = Some oc"
  shows "s\<lparr>objs := clearNodes (nodes oc) (objs s),
           octs := (octs s)(a \<mapsto> oc\<lparr>nodes := [], numNodes := 0\<rparr>)\<rparr> = kidsDeleted s a oc {}"
proof (rule state_eqI)
  show "octs (s\<lparr>objs := clearNodes (nodes oc) (objs s),
           octs := (octs s)(a \<mapsto> oc\<lparr>nodes := [], numNodes := 0\<rparr>)\<rparr>) = octs (kidsDeleted s a oc {})"
    unfolding kidsDeleted_fields by (auto simp: fun_eq_iff)
  show "objs (s\<lparr>objs := clearNodes (nodes oc) (objs s),
           octs := (octs s)(a \<mapsto> oc\<lparr>nodes := [], numNodes := 0\<rparr>)\<rparr>) = objs (kidsDeleted s a oc {})"
    unfolding kidsDeleted_fields by (auto simp: fun_eq_iff clearNodes_apply)
qed (simp_all add: kidsDeleted_fields)

lemma branchObjs_dead:
  assumes "\<And>x. suffix c x \<Longrightarrow> m x = None"
  shows "branchObjs m c = {}"
  unfolding branchObjs_def using assms by (auto simp: nodesOf_def)

lemma kids_step_None:
  assumes ok: "subtreeOK (octs s) a" and a: "octs s a = Some oc" and n: "children oc i = None"
  shows "clearChild (kidsDeleted s a oc J) a i = kidsDeleted s a oc (insert i J)"
proof (rule state_eqI)
  note dead = subtree_slot_dead [OF ok a n]
  show "octs (clearChild (kidsDeleted s a oc J) a i) = octs (kidsDeleted s a oc (insert i J))"
    unfolding clearChild_fields kidsDeleted_fields using dead
    by (auto simp: fun_eq_iff)
  show "objs (clearChild (kidsDeleted s a oc J) a i) = objs (kidsDeleted s a oc (insert i J))"
    unfolding clearChild_fields kidsDeleted_fields using branchObjs_dead [OF dead]
    by (auto simp: fun_eq_iff)
qed (simp_all add: kidsDeleted_fields clearChild_fields)

lemma branchObjs_cong:
  assumes "\<And>b. suffix c b \<Longrightarrow> m' b = m b"
  shows "branchObjs m' c = branchObjs m c"
proof -
  have "\<And>b. suffix c b \<Longrightarrow> nodesOf m' b = nodesOf m b" by (simp add: nodesOf_def assms)
  then show ?thesis unfolding branchObjs_def by auto
qed

lemma not_root_below: "suffix (i # a) b \<Longrightarrow> b \<noteq> root"
  by (auto simp: root_def)

lemma kids_step_Some:
  assumes a: "octs s a = Some oc" and iJ: "i \<notin> J"
  shows "clearChild (deleted (kidsDeleted s a oc J) (i # a)) a i = kidsDeleted s a oc (insert i J)"
proof (rule state_eqI)
  have same: "\<And>b. suffix (i # a) b \<Longrightarrow> octs (kidsDeleted s a oc J) b = octs s b"
    unfolding kidsDeleted_fields using iJ by (auto dest: sfx_same sfx_below)
  have bo: "branchObjs (octs (kidsDeleted s a oc J)) (i # a) = branchObjs (octs s) (i # a)"
    by (rule branchObjs_cong) (rule same)
  have na: "\<not> suffix (i # a) a" by (auto dest: sfx_below)
  show "octs (clearChild (deleted (kidsDeleted s a oc J) (i # a)) a i) =
        octs (kidsDeleted s a oc (insert i J))"
    unfolding clearChild_fields deleted_fields
    using na by (auto simp: fun_eq_iff kidsDeleted_fields dest: not_root_below)
  show "objs (clearChild (deleted (kidsDeleted s a oc J) (i # a)) a i) =
        objs (kidsDeleted s a oc (insert i J))"
    unfolding clearChild_fields deleted_fields bo
    by (auto simp: fun_eq_iff kidsDeleted_fields clr_clr)
qed (simp_all add: kidsDeleted_fields clearChild_fields deleted_fields)

lemma branchObjs_split:
  "branchObjs m a = set (nodesOf m a) \<union> (\<Union>j. branchObjs m (j # a))"
proof (intro set_eqI iffI)
  fix k assume "k \<in> branchObjs m a"
  then obtain b where b: "suffix a b" "k \<in> set (nodesOf m b)" by (auto simp: branchObjs_def)
  show "k \<in> set (nodesOf m a) \<union> (\<Union>j. branchObjs m (j # a))"
  proof (cases "b = a")
    case True then show ?thesis using b by simp
  next
    case False
    from sfx_strict [OF b(1) False] obtain j where "suffix (j # a) b" ..
    then show ?thesis using b(2) by (auto simp: branchObjs_def)
  qed
next
  fix k assume "k \<in> set (nodesOf m a) \<union> (\<Union>j. branchObjs m (j # a))"
  then show "k \<in> branchObjs m a"
    by (auto simp: branchObjs_def dest: sfx_below)
qed

lemma kids_final:
  assumes ok: "subtreeOK (octs s) a" and a: "octs s a = Some oc"
  shows "freeOctant (kidsDeleted s a oc {..<8}) a = deleted s a"
proof (rule state_eqI)
  note big = subtree_big_dead [OF ok a]
  have ch: "(\<lambda>i. if i \<in> {..<8} then None else children oc i) = (\<lambda>_. None)"
  proof
    fix i show "(if i \<in> {..<8} then None else children oc i) = None"
    proof (cases "children oc i")
      case None then show ?thesis by simp
    next
      case (Some c)
      from subtreeD(4) [OF ok suffix_order.refl a Some] show ?thesis by simp
    qed
  qed
  have strict: "\<And>b. suffix a b \<Longrightarrow> b \<noteq> a \<Longrightarrow> \<not> (\<exists>j\<in>{..<8}. suffix (j # a) b) \<Longrightarrow> octs s b = None"
  proof -
    fix b assume b: "suffix a b" "b \<noteq> a" "\<not> (\<exists>j\<in>{..<8}. suffix (j # a) b)"
    from sfx_strict [OF b(1,2)] obtain j where j: "suffix (j # a) b" ..
    with b(3) have "\<not> j < 8" by auto
    from big [OF this j] show "octs s b = None" .
  qed
  show "octs (freeOctant (kidsDeleted s a oc {..<8}) a) = octs (deleted s a)"
  proof
    fix b
    show "octs (freeOctant (kidsDeleted s a oc {..<8}) a) b = octs (deleted s a) b"
    proof (cases "b = a")
      case True
      show ?thesis
      proof (cases "a = root")
        case R: True
        show ?thesis
          unfolding freeOctant_fields deleted_fields kidsDeleted_fields ch True R
          using a [unfolded R] by simp
      next
        case R: False
        then show ?thesis
          unfolding freeOctant_fields deleted_fields kidsDeleted_fields ch True by simp
      qed
    next
      case False
      show ?thesis
      proof (cases "suffix a b")
        case T: True
        have "b \<noteq> root" using T False by (auto simp: root_def)
        then show ?thesis
          unfolding freeOctant_fields deleted_fields kidsDeleted_fields
          using False T strict [OF T False] by auto
      next
        case F: False
        then have "\<not> (\<exists>j\<in>{..<8}. suffix (j # a) b)" by (auto dest: sfx_below)
        then show ?thesis
          unfolding freeOctant_fields deleted_fields kidsDeleted_fields
          using False F by auto
      qed
    qed
  qed
  have bo: "branchObjs (octs s) a = set (nodes oc) \<union> (\<Union>j\<in>{..<8}. branchObjs (octs s) (j # a))"
  proof -
    have "\<And>j. \<not> j < 8 \<Longrightarrow> branchObjs (octs s) (j # a) = {}"
      by (rule branchObjs_dead) (rule big)
    then have "(\<Union>j. branchObjs (octs s) (j # a)) = (\<Union>j\<in>{..<8}. branchObjs (octs s) (j # a))"
      by auto
    then show ?thesis using branchObjs_split [of "octs s" a] a by (simp add: nodesOf_def)
  qed
  show "objs (freeOctant (kidsDeleted s a oc {..<8}) a) = objs (deleted s a)"
    unfolding freeOctant_fields deleted_fields kidsDeleted_fields bo by (auto simp: fun_eq_iff)
qed (simp_all add: kidsDeleted_fields freeOctant_fields deleted_fields)

lemma kids_same:
  "i \<notin> J \<Longrightarrow> suffix (i # a) b \<Longrightarrow> octs (kidsDeleted s a oc J) b = octs s b"
  unfolding kidsDeleted_fields by (auto dest: sfx_same sfx_below)

lemma kids_finite:
  assumes "finite (dom (octs s))"
  shows "finite (dom (octs (kidsDeleted s a oc J)))"
proof (rule finite_subset)
  show "dom (octs (kidsDeleted s a oc J)) \<subseteq> insert a (dom (octs s))"
    unfolding kidsDeleted_fields by (auto split: if_splits)
  show "finite (insert a (dom (octs s)))" using assms by simp
qed

lemma DeleteChildOctants_spec:
  "subtreeOK (octs s) a \<Longrightarrow> DeleteChildOctants s (Some a) = Some (deleted s a)"
proof (induction "card {b \<in> dom (octs s). suffix a b}" arbitrary: s a rule: less_induct)
  case less
  note ok = less.prems
  from subtreeD(2) [OF ok] obtain oc where a: "octs s a = Some oc" by auto
  have kids: "J \<inter> set js = {} \<Longrightarrow> distinct js \<Longrightarrow>
      delKids (kidsDeleted s a oc J) a js = Some (kidsDeleted s a oc (J \<union> set js))" for J js
  proof (induction js arbitrary: J)
    case Nil
    then show ?case by simp
  next
    case (Cons i js)
    then have iJ: "i \<notin> J" and ij: "i \<notin> set js" and d: "distinct js"
      and dj: "insert i J \<inter> set js = {}" by auto
    let ?sJ = "kidsDeleted s a oc J"
    have cp: "childPtr ?sJ a i = children oc i"
      using iJ by (simp add: childPtr_def kidsDeleted_fields)
    have e: "J \<union> set (i # js) = insert i J \<union> set js" by auto
    show ?case
    proof (cases "children oc i")
      case None
      have "delKids ?sJ a (i # js) = delKids (clearChild ?sJ a i) a js"
        by (simp add: cp None DeleteChildOctants_None)
      also have "\<dots> = delKids (kidsDeleted s a oc (insert i J)) a js"
        unfolding kids_step_None [OF ok a None] ..
      also have "\<dots> = Some (kidsDeleted s a oc (insert i J \<union> set js))"
        using dj d by (rule Cons.IH)
      finally show ?thesis unfolding e .
    next
      case (Some c)
      note sc = subtree_child [OF ok a Some]
      have okJ: "subtreeOK (octs ?sJ) (i # a)"
        using sc(1) [unfolded sc(2)] kids_finite [OF subtreeD(1) [OF ok]]
        by (rule subtreeOK_cong) (rule kids_same [OF iJ])
      have "{b \<in> dom (octs ?sJ). suffix (i # a) b} \<subset> {b \<in> dom (octs s). suffix a b}"
      proof
        show "{b \<in> dom (octs ?sJ). suffix (i # a) b} \<subseteq> {b \<in> dom (octs s). suffix a b}"
          using kids_same [OF iJ, of a _ s oc] by (auto dest: sfx_below simp: dom_def)
        have "a \<in> {b \<in> dom (octs s). suffix a b}" using a by auto
        moreover have "a \<notin> {b \<in> dom (octs ?sJ). suffix (i # a) b}" by (auto dest: sfx_below)
        ultimately show "{b \<in> dom (octs ?sJ). suffix (i # a) b} \<noteq> {b \<in> dom (octs s). suffix a b}"
          by blast
      qed
      then have "card {b \<in> dom (octs ?sJ). suffix (i # a) b} < card {b \<in> dom (octs s). suffix a b}"
        using subtreeD(1) [OF ok] by (intro psubset_card_mono) auto
      from less.hyps [OF this okJ]
      have D: "DeleteChildOctants ?sJ (Some (i # a)) = Some (deleted ?sJ (i # a))" .
      have "delKids ?sJ a (i # js) = delKids (clearChild (deleted ?sJ (i # a)) a i) a js"
        using Some sc(2) by (simp add: cp D)
      also have "\<dots> = delKids (kidsDeleted s a oc (insert i J)) a js"
        unfolding kids_step_Some [OF a iJ] ..
      also have "\<dots> = Some (kidsDeleted s a oc (insert i J \<union> set js))"
        using dj d by (rule Cons.IH)
      finally show ?thesis unfolding e .
    qed
  qed
  have s8: "{} \<union> set [0, 1, 2, 3, 4, 5, 6, 7 :: nat] = {..<8}" by auto
  have "delKids (kidsDeleted s a oc {}) a [0, 1, 2, 3, 4, 5, 6, 7] = Some (kidsDeleted s a oc {..<8})"
    using kids [of "{}" "[0, 1, 2, 3, 4, 5, 6, 7]"] unfolding s8 by simp
  then show ?case
    unfolding DeleteChildOctants_unfold [OF a] kids_start [OF a]
    by (simp add: kids_final [OF ok a])
qed

lemma CollectNodes_None: "CollectNodes s None = Some []"
  by (simp add: CollectNodes.simps)

lemma CollectNodes_spec:
  "subtreeOK (octs s) a \<Longrightarrow>
   \<exists>q. CollectNodes s (Some a) = Some q \<and> set q = branchObjs (octs s) a"
proof (induction "card {b \<in> dom (octs s). suffix a b}" arbitrary: a rule: less_induct)
  case less
  note ok = less.prems
  from subtreeD(2) [OF ok] obtain oc where a: "octs s a = Some oc" by auto
  have kid: "\<exists>r. CollectNodes s (children oc i) = Some r \<and> set r = branchObjs (octs s) (i # a)" for i
  proof (cases "children oc i")
    case None
    have "branchObjs (octs s) (i # a) = {}"
      by (rule branchObjs_dead) (rule subtree_slot_dead [OF ok a None])
    then show ?thesis using None by (simp add: CollectNodes_None)
  next
    case (Some c)
    note sc = subtree_child [OF ok a Some]
    have "{b \<in> dom (octs s). suffix (i # a) b} \<subset> {b \<in> dom (octs s). suffix a b}"
      using a by (auto dest: sfx_below)
    then have "card {b \<in> dom (octs s). suffix (i # a) b} < card {b \<in> dom (octs s). suffix a b}"
      using subtreeD(1) [OF ok] by (intro psubset_card_mono) auto
    from less.hyps [OF this sc(1) [unfolded sc(2)]] show ?thesis using Some sc(2) by simp
  qed
  from kid [of 0] obtain r0 where r0: "CollectNodes s (children oc 0) = Some r0"
    "set r0 = branchObjs (octs s) (0 # a)" by blast
  from kid [of 1] obtain r1 where r1: "CollectNodes s (children oc 1) = Some r1"
    "set r1 = branchObjs (octs s) (1 # a)" by blast
  from kid [of 2] obtain r2 where r2: "CollectNodes s (children oc 2) = Some r2"
    "set r2 = branchObjs (octs s) (2 # a)" by blast
  from kid [of 3] obtain r3 where r3: "CollectNodes s (children oc 3) = Some r3"
    "set r3 = branchObjs (octs s) (3 # a)" by blast
  from kid [of 4] obtain r4 where r4: "CollectNodes s (children oc 4) = Some r4"
    "set r4 = branchObjs (octs s) (4 # a)" by blast
  from kid [of 5] obtain r5 where r5: "CollectNodes s (children oc 5) = Some r5"
    "set r5 = branchObjs (octs s) (5 # a)" by blast
  from kid [of 6] obtain r6 where r6: "CollectNodes s (children oc 6) = Some r6"
    "set r6 = branchObjs (octs s) (6 # a)" by blast
  from kid [of 7] obtain r7 where r7: "CollectNodes s (children oc 7) = Some r7"
    "set r7 = branchObjs (octs s) (7 # a)" by blast
  have e: "CollectNodes s (Some a) = Some (nodes oc @ r0 @ r1 @ r2 @ r3 @ r4 @ r5 @ r6 @ r7)"
    by (subst CollectNodes.simps) (simp add: a r0(1) r1(1) [simplified] r2(1) r3(1) r4(1) r5(1) r6(1) r7(1))
  have big: "\<And>j. \<not> j < 8 \<Longrightarrow> branchObjs (octs s) (j # a) = {}"
    by (rule branchObjs_dead) (rule subtree_big_dead [OF ok a])
  have "(\<Union>j. branchObjs (octs s) (j # a)) = (\<Union>j\<in>{..<8}. branchObjs (octs s) (j # a))"
    using big by auto
  also have "{..<8::nat} = {0, 1, 2, 3, 4, 5, 6, 7}" by auto
  finally have "branchObjs (octs s) a =
      set (nodes oc) \<union> (\<Union>j\<in>{0, 1, 2, 3, 4, 5, 6, 7}. branchObjs (octs s) (j # a))"
    using branchObjs_split [of "octs s" a] a by (simp add: nodesOf_def)
  then have "set (nodes oc @ r0 @ r1 @ r2 @ r3 @ r4 @ r5 @ r6 @ r7) = branchObjs (octs s) a"
    unfolding set_append r0(2) r1(2) r2(2) r3(2) r4(2) r5(2) r6(2) r7(2) by auto
  with e show ?case by blast
qed

section \<open>Resize keeps the octree well-formed\<close>

lemma wf_single:
  assumes m: "octs s = (\<lambda>_. None)(root \<mapsto> ro)"
    and ro: "children ro = (\<lambda>_. None)" "nodes ro = []" "numNodes ro = 0" "\<not> sortDirty ro"
      "parent ro = None" "derived ro"
    and os: "\<And>n. octant (objs s n) = None" "\<And>n. validBox (nodeBox (objs s n))"
    and sd: "sortDirtyOctants s = []"
  shows "wellFormed s"
proof (rule wfI)
  have at: "\<And>a oc. octs s a = Some oc \<Longrightarrow> a = root \<and> oc = ro"
    unfolding m by (auto split: if_splits)
  show "tree (octs s)"
  proof (rule treeI)
    show "finite (dom (octs s))" unfolding m by simp
    show "\<exists>oc. octs s root = Some oc" unfolding m by simp
    show "\<And>a i oc. octs s (i # a) = Some oc \<Longrightarrow>
        \<exists>poc. octs s a = Some poc \<and> children poc i = Some (i # a)"
      by (auto dest: at simp: root_def)
    show "\<And>a oc i c. octs s a = Some oc \<Longrightarrow> children oc i = Some c \<Longrightarrow>
        c = i # a \<and> (\<exists>coc. octs s c = Some coc)"
      by (auto dest!: at simp: ro)
    show "\<And>a oc. octs s a = Some oc \<Longrightarrow> parent oc = (case a of [] \<Rightarrow> None | i # p \<Rightarrow> Some p)"
      by (auto dest!: at simp: ro root_def)
  qed
  show "geo (octs s)"
    by (rule geoI) (auto dest!: at simp: ro root_def)
  have n: "nodesOf (octs s) = (\<lambda>_. [])"
    unfolding m by (auto simp: nodesOf_def fun_eq_iff ro)
  have c0: "\<And>a. cnt (octs s) a = 0" by (simp add: cnt_def n)
  show "counts (octs s) {} 0"
    by (rule countsI) (auto dest!: at simp: c0 ro)
  show "pruned (octs s) {}"
    by (rule prunedI) (auto dest!: at)
  show "refs (octs s) (objs s)"
    by (rule refsI) (simp_all add: n os)
  show "\<And>n. validBox (nodeBox (objs s n))" by (rule os)
  show "sortDirtyOctants s = []" by (rule sd)
  show "\<And>a oc. octs s a = Some oc \<Longrightarrow> \<not> sortDirty oc"
    by (auto dest!: at simp: ro)
qed

lemma branchObjs_root:
  assumes "refs m os"
  shows "branchObjs m root = {k. octant (os k) \<noteq> None}"
  unfolding branchObjs_def root_def using refsD(2) [OF assms] by auto

lemma Resize_spec:
  assumes w: "wellFormed s"
  shows "\<exists>s' q r. Resize b l s = Some s' \<and> wellFormed s' \<and>
     updateQueue s' = map Some q \<and> set q = {k. octant (objs s k) \<noteq> None} \<and>
     octs s root = Some r \<and>
     octs s' = (\<lambda>_. None)(root \<mapsto> Initialize None b (Clamp l 1 MAX_OCTREE_LEVELS)
                   (r\<lparr>children := (\<lambda>_. None), nodes := [], numNodes := 0\<rparr>)) \<and>
     objs s' = (\<lambda>k. if octant (objs s k) \<noteq> None then clr (objs s k) else objs s k)"
proof -
  note t = wfD(1) [OF w] and g = wfD(2) [OF w] and rf = wfD(5) [OF w]
  have ok: "subtreeOK (octs s) root" using t g by (rule tree_subtreeOK)
  from treeD_root [OF t] obtain r where r: "octs s root = Some r" by auto
  note bo = branchObjs_root [OF rf]
  from CollectNodes_spec [OF ok] obtain q where
    q: "CollectNodes s (Some root) = Some q" "set q = {k. octant (objs s k) \<noteq> None}"
    unfolding bo by auto
  let ?s0 = "s\<lparr>updateQueue := map Some q\<rparr>"
  have "subtreeOK (octs ?s0) root" using ok by simp
  from DeleteChildOctants_spec [OF this]
  have d: "DeleteChildOctants ?s0 (Some root) = Some (deleted ?s0 root)" .
  define r' where "r' = r\<lparr>children := (\<lambda>_. None), nodes := [], numNodes := 0\<rparr>"
  have dr: "octs (deleted ?s0 root) root = Some r'"
    unfolding deleted_fields using r by (simp add: r'_def)
  define ro where "ro = Initialize None b (Clamp l 1 MAX_OCTREE_LEVELS) r'"
  define s' where "s' = (deleted ?s0 root)\<lparr>octs := (\<lambda>_. None)(root \<mapsto> ro)\<rparr>"
  have re: "Resize b l s = Some s'"
    unfolding Resize_def q(1) using d dr by (simp add: s'_def ro_def)
  have f: "octs s' = (\<lambda>_. None)(root \<mapsto> ro)"
    "objs s' = (\<lambda>k. if octant (objs s k) \<noteq> None then clr (objs s k) else objs s k)"
    "updateQueue s' = map Some q" "sortDirtyOctants s' = sortDirtyOctants s"
    unfolding s'_def by (simp_all add: deleted_fields bo cong: if_cong)
  have "wellFormed s'"
  proof (rule wf_single [OF f(1)])
    show "children ro = (\<lambda>_. None)" "nodes ro = []" "numNodes ro = 0"
      by (simp_all add: ro_def r'_def Initialize_fields)
    show "\<not> sortDirty ro" using wfD(8) [OF w r] by (simp add: ro_def r'_def Initialize_fields)
    show "parent ro = None" by (simp add: ro_def Initialize_fields)
    show "derived ro" unfolding ro_def by (rule derived_Initialize)
    show "\<And>n. octant (objs s' n) = None" unfolding f(2) by (simp add: clr_def)
    show "\<And>n. validBox (nodeBox (objs s' n))" unfolding f(2) using wfD(6) [OF w] by (simp add: clr_def)
    show "sortDirtyOctants s' = []" unfolding f(4) by (rule wfD(7) [OF w])
  qed
  then show ?thesis using re f q(2) r unfolding ro_def r'_def by blast
qed

section \<open>Removal of an object with a stale queue entry\<close>

lemma CollectNodes_leaf:
  "octs s a = Some oc \<Longrightarrow> children oc = (\<lambda>_. None) \<Longrightarrow> CollectNodes s (Some a) = Some (nodes oc)"
  by (subst CollectNodes.simps) (simp add: CollectNodes_None)

lemma DeleteChildOctants_leaf:
  assumes "octs s root = Some oc" "children oc = (\<lambda>_. None)"
  shows "DeleteChildOctants s (Some root) =
     Some (s\<lparr>objs := clearNodes (nodes oc) (objs s),
             octs := (octs s)(root \<mapsto> oc\<lparr>nodes := [], numNodes := 0\<rparr>)\<rparr>)"
proof -
  have e: "oc\<lparr>nodes := [], numNodes := 0, children := (\<lambda>_. None)\<rparr> = oc\<lparr>nodes := [], numNodes := 0\<rparr>"
    using assms(2) by simp
  show ?thesis
    apply (subst DeleteChildOctants.simps)
    apply (simp add: assms DeleteChildOctants_None childPtr_def clearChild_def freeOctant_def e)
    done
qed

lemma Resize_leaf:
  assumes "octs s root = Some oc" "children oc = (\<lambda>_. None)"
  shows "Resize b l s =
     Some (s\<lparr>updateQueue := map Some (nodes oc), objs := clearNodes (nodes oc) (objs s),
             octs := (\<lambda>_. None)(root \<mapsto>
               Initialize None b (Clamp l 1 MAX_OCTREE_LEVELS) (oc\<lparr>nodes := [], numNodes := 0\<rparr>))\<rparr>)"
  unfolding Resize_def
  by (simp add: CollectNodes_leaf [OF assms] DeleteChildOctants_leaf assms)

text \<open>
  C10 (the code misses it). RemoveNode does not always clear the pending queue entries
  of the object it removes, in two ways.

  After QueueUpdate has been called twice on object 3 (in no octant), RemoveNode nulls
  the first queue entry only: CancelUpdate leaves its loop at the first match, and the
  second entry still names the object.

  After Resize, every object of the tree is in the queue (CollectNodes) while
  DeleteChildOctants has cleared its queued flag and its back-reference; RemoveNode on
  such an object, whose back-reference is null, finds the flag clear and does not call
  CancelUpdate: the entry still names the object. Here the octree is resized to one
  level, object 3 is queued and inserted by Update (into the root, as the level is 1),
  the octree is resized again and object 3 is removed.

  In both cases the next Update reads the removed object through the queue entry,
  against the comment in Update: "If node was removed before update could happen, a
  null pointer will be in its place".
\<close>

theorem C10_remove_leaves_entry:
  "map_option updateQueue
     (RemoveNode 3 (QueueUpdate 3 (QueueUpdate 3
        (Octree_new (\<lambda>_. untracked (pointBox 0 0 (0::'f::{zero,one,plus,minus,uminus,times,inverse,ord})))))))
   = Some [None, Some 3] \<and>
   Option.bind (Resize (BoundingBox (Vector3 0 0 0) (Vector3 1 1 1)) 1
                  (Octree_new (\<lambda>_. untracked (pointBox 0 0 (0::'f))))) (\<lambda>s1.
   Option.bind (Update 1 (QueueUpdate 3 s1)) (\<lambda>s2.
   Option.bind (Resize (BoundingBox (Vector3 0 0 0) (Vector3 1 1 1)) 1 s2) (\<lambda>s3.
   Option.bind (RemoveNode 3 s3) (\<lambda>s4.
     Some (octant (objs s2 3), octant (objs s3 3), updateQueue s3, updateQueue s4)))))
   = Some (Some root, None, [Some 3], [Some 3])"
proof -
  let ?os = "\<lambda>_::nat. untracked (pointBox 0 0 (0::'f))"
  let ?b = "BoundingBox (Vector3 0 0 0) (Vector3 1 1 (1::'f))"
  have a: "map_option updateQueue (RemoveNode 3 (QueueUpdate 3 (QueueUpdate 3 (Octree_new ?os))))
      = Some [None, Some 3]"
    by (simp add: RemoveNode_def RemoveNodeFrom_def QueueUpdate_def CancelUpdate_def Octree_new_def
        untracked_def Let_def)
  have r1: "Resize ?b 1 (Octree_new ?os) = Some \<lparr> octs = (\<lambda>_. None)(root \<mapsto> Initialize None ?b 1 Octant_new),
       updateQueue = [], sortDirtyOctants = [], objs = ?os \<rparr>"
    apply (subst Resize_leaf [where oc = "Initialize None
           (BoundingBox (Vector3 (- DEFAULT_OCTREE_SIZE) (- DEFAULT_OCTREE_SIZE) (- DEFAULT_OCTREE_SIZE))
                        (Vector3 DEFAULT_OCTREE_SIZE DEFAULT_OCTREE_SIZE DEFAULT_OCTREE_SIZE))
           DEFAULT_OCTREE_LEVELS Octant_new"])
      apply (simp add: Octree_new_def)
     apply (simp add: Initialize_def Octant_new_def Let_def)
    apply (simp add: Octree_new_def clearNodes_def Initialize_def Octant_new_def Let_def Clamp_def MAX_OCTREE_LEVELS_def)
    done
  let ?s1 = "\<lparr> octs = (\<lambda>_. None)(root \<mapsto> Initialize None ?b 1 Octant_new),
       updateQueue = [], sortDirtyOctants = [], objs = ?os \<rparr>"
  let ?s2 = "\<lparr> octs = (\<lambda>_. None)(root \<mapsto> (Initialize None ?b 1 Octant_new)\<lparr>nodes := [3], numNodes := 1\<rparr>),
       updateQueue = [], sortDirtyOctants = [],
       objs = ?os(3 := (untracked (pointBox 0 0 0))\<lparr>octant := Some root, lastUpdateFrameNumber := 1\<rparr>) \<rparr>"
  have fit: "FitBoundingBox (Initialize None ?b 1 Octant_new) box sz" for box sz
    by (simp add: FitBoundingBox_def Initialize_def Let_def)
  have fo: "findOctant s root box = Some (s, root)"
    if "octs s root = Some (Initialize None ?b 1 Octant_new)" for s box
    by (subst findOctant.simps) (simp add: that insertHere_def fit)
  have u: "Update 1 (QueueUpdate 3 ?s1) = Some ?s2"
    apply (simp add: Update_def QueueUpdate_def updateNode_def untracked_def reinsert_def fo
        AddNode_def Let_def)
    apply (subst incNumNodes.simps)
    apply (simp add: incNumNodes_None RemoveNodeFrom_def Initialize_def Octant_new_def Let_def root_def)
    done
  let ?s3 = "\<lparr> octs = (\<lambda>_. None)(root \<mapsto> Initialize None ?b 1 Octant_new),
       updateQueue = [Some 3], sortDirtyOctants = [],
       objs = ?os(3 := (untracked (pointBox 0 0 0))\<lparr>lastUpdateFrameNumber := 1\<rparr>) \<rparr>"
  have r2: "Resize ?b 1 ?s2 = Some ?s3"
    apply (subst Resize_leaf [where oc = "(Initialize None ?b 1 Octant_new)\<lparr>nodes := [3], numNodes := 1\<rparr>"])
      apply simp
     apply (simp add: Initialize_def Octant_new_def Let_def)
    apply (simp add: clearNodes_def Initialize_def Octant_new_def Let_def Clamp_def
        MAX_OCTREE_LEVELS_def untracked_def fun_eq_iff)
    done
  have rm: "map_option updateQueue (RemoveNode 3 ?s3) = Some [Some 3]"
    by (simp add: RemoveNode_def RemoveNodeFrom_def untracked_def Let_def)
  then obtain s4 where s4: "RemoveNode 3 ?s3 = Some s4" "updateQueue s4 = [Some 3]"
    by auto
  have b: "Option.bind (Resize ?b 1 (Octree_new ?os)) (\<lambda>s1.
   Option.bind (Update 1 (QueueUpdate 3 s1)) (\<lambda>s2.
   Option.bind (Resize ?b 1 s2) (\<lambda>s3.
   Option.bind (RemoveNode 3 s3) (\<lambda>s4.
     Some (octant (objs s2 3), octant (objs s3 3), updateQueue s3, updateQueue s4)))))
   = Some (Some root, None, [Some 3], [Some 3])"
    unfolding r1 Option.bind.simps u r2 s4 by (simp add: untracked_def)
  from a b show ?thesis by (rule conjI)
qed

section \<open>The culling box of every octant\<close>

lemma derived_upd [simp]:
  "derived (oc\<lparr>numNodes := k\<rparr>) = derived oc"
  "derived (oc\<lparr>nodes := ns\<rparr>) = derived oc"
  "derived (oc\<lparr>sortDirty := d\<rparr>) = derived oc"
  "derived (oc\<lparr>children := ch\<rparr>) = derived oc"
  by (simp_all add: derived_def)























section \<open>Resize and the pending objects\<close>

text \<open>
  C7 (the code misses it). Resize loses an object that is pending in the queue and was
  never inserted: Resize clears the queue before it collects the objects of the tree, so
  the entry of the pending object is dropped, while its queued flag stays set. Object 3
  is queued on a new octree, the octree is resized to one level and updated: object 3 is
  in no octant afterwards and is still flagged as queued. On an octree of the same box
  and level count, queueing object 3 and updating inserts it (into the root, as the
  level is 1).
\<close>

theorem C7_resize_loses_pending:
  "Option.bind (Resize (BoundingBox (Vector3 0 0 0) (Vector3 1 1 1)) 1
       (QueueUpdate 3 (Octree_new (\<lambda>_. untracked (pointBox 0 0 (0::'f::{zero,one,plus,minus,uminus,times,inverse,ord})))))) (\<lambda>s1.
   Option.bind (Update 1 s1) (\<lambda>s2.
     Some (updateQueue s1, octant (objs s2 3), updateQueued (objs s2 3))))
   = Some ([], None, True) \<and>
   Option.bind (Resize (BoundingBox (Vector3 0 0 0) (Vector3 1 1 1)) 1
       (Octree_new (\<lambda>_. untracked (pointBox 0 0 (0::'f))))) (\<lambda>s1.
   Option.bind (Update 1 (QueueUpdate 3 s1)) (\<lambda>s2.
     Some (octant (objs s2 3), updateQueued (objs s2 3))))
   = Some (Some root, False)"
proof -
  let ?os = "\<lambda>_::nat. untracked (pointBox 0 0 (0::'f))"
  let ?b = "BoundingBox (Vector3 0 0 0) (Vector3 1 1 (1::'f))"
  let ?r0 = "Initialize None
           (BoundingBox (Vector3 (- DEFAULT_OCTREE_SIZE) (- DEFAULT_OCTREE_SIZE) (- DEFAULT_OCTREE_SIZE))
                        (Vector3 DEFAULT_OCTREE_SIZE DEFAULT_OCTREE_SIZE (DEFAULT_OCTREE_SIZE::'f)))
           DEFAULT_OCTREE_LEVELS Octant_new"
  let ?s1 = "\<lparr> octs = (\<lambda>_. None)(root \<mapsto> Initialize None ?b 1 Octant_new),
       updateQueue = [], sortDirtyOctants = [],
       objs = ?os(3 := (untracked (pointBox 0 0 0))\<lparr>updateQueued := True\<rparr>) \<rparr>"
  have r1: "Resize ?b 1 (QueueUpdate 3 (Octree_new ?os)) = Some ?s1"
    apply (subst Resize_leaf [where oc = ?r0])
      apply (simp add: Octree_new_def QueueUpdate_def)
     apply (simp add: Initialize_def Octant_new_def Let_def)
    apply (simp add: Octree_new_def QueueUpdate_def clearNodes_def Initialize_def Octant_new_def
        Let_def Clamp_def MAX_OCTREE_LEVELS_def)
    done
  have u1: "Update 1 ?s1 = Some ?s1"
    by (simp add: Update_def)
  have a: "Option.bind (Resize ?b 1 (QueueUpdate 3 (Octree_new ?os))) (\<lambda>s1.
   Option.bind (Update 1 s1) (\<lambda>s2.
     Some (updateQueue s1, octant (objs s2 3), updateQueued (objs s2 3))))
   = Some ([], None, True)"
    unfolding r1 Option.bind.simps u1 by (simp add: untracked_def)
  let ?t1 = "\<lparr> octs = (\<lambda>_. None)(root \<mapsto> Initialize None ?b 1 Octant_new),
       updateQueue = [], sortDirtyOctants = [], objs = ?os \<rparr>"
  let ?t2 = "\<lparr> octs = (\<lambda>_. None)(root \<mapsto> (Initialize None ?b 1 Octant_new)\<lparr>nodes := [3], numNodes := 1\<rparr>),
       updateQueue = [], sortDirtyOctants = [],
       objs = ?os(3 := (untracked (pointBox 0 0 0))\<lparr>octant := Some root, lastUpdateFrameNumber := 1\<rparr>) \<rparr>"
  have r2: "Resize ?b 1 (Octree_new ?os) = Some ?t1"
    apply (subst Resize_leaf [where oc = ?r0])
      apply (simp add: Octree_new_def)
     apply (simp add: Initialize_def Octant_new_def Let_def)
    apply (simp add: Octree_new_def clearNodes_def Initialize_def Octant_new_def Let_def Clamp_def
        MAX_OCTREE_LEVELS_def)
    done
  have fit: "FitBoundingBox (Initialize None ?b 1 Octant_new) box sz" for box sz
    by (simp add: FitBoundingBox_def Initialize_def Let_def)
  have fo: "findOctant s root box = Some (s, root)"
    if "octs s root = Some (Initialize None ?b 1 Octant_new)" for s box
    by (subst findOctant.simps) (simp add: that insertHere_def fit)
  have u2: "Update 1 (QueueUpdate 3 ?t1) = Some ?t2"
    apply (simp add: Update_def QueueUpdate_def updateNode_def untracked_def reinsert_def fo
        AddNode_def Let_def)
    apply (subst incNumNodes.simps)
    apply (simp add: incNumNodes_None RemoveNodeFrom_def Initialize_def Octant_new_def Let_def root_def)
    done
  have b: "Option.bind (Resize ?b 1 (Octree_new ?os)) (\<lambda>s1.
   Option.bind (Update 1 (QueueUpdate 3 s1)) (\<lambda>s2.
     Some (octant (objs s2 3), updateQueued (objs s2 3))))
   = Some (Some root, False)"
    unfolding r2 Option.bind.simps u2 by (simp add: untracked_def)
  from a b show ?thesis by (rule conjI)
qed

section \<open>Rounding and the slot of a child\<close>

lemmas f32_defs = zero_f32_def one_f32_def plus_f32_def minus_f32_def uminus_f32_def times_f32_def
  divide_f32_def less_eq_f32_def less_f32_def

lemmas round_defs = round32_def exponent_def roundEven_def Let_def

lemma bitLength_numeral:
  "bitLength (numeral (Num.Bit0 n)) = Suc (bitLength (numeral n))"
  "bitLength (numeral (Num.Bit1 n)) = Suc (bitLength (numeral n))"
  "bitLength (Suc 0) = Suc 0" "bitLength 1 = Suc 0" "bitLength 0 = 0"
  by (subst bitLength.simps, simp)+

lemma half_f32: "(half :: f32) = F32 (1 / 2)"
  by (simp add: half_def f32_defs round_defs bitLength_numeral)

text \<open>
  C3 (the code misses it). RemoveNode finds the slot of an emptied octant in its parent
  by \<open>parent->ChildIndex(octant->center)\<close>. In binary32 the centre of a child can be
  rounded onto the centre of its parent, and then the index computed is not the slot the
  child occupies.

  The octree is resized to the box \<open>[2\<^sup>2\<^sup>4+2, 2\<^sup>2\<^sup>4+6]\<^sup>3\<close> with 2 levels (centre \<open>2\<^sup>2\<^sup>4+4\<close>,
  half-size 2). Object 3, a point at \<open>(2\<^sup>2\<^sup>4+2, 2\<^sup>2\<^sup>4+2, 2\<^sup>2\<^sup>4+2)\<close>, is queued and inserted by
  Update into the child of slot 0, whose box is \<open>[2\<^sup>2\<^sup>4+2, 2\<^sup>2\<^sup>4+4]\<^sup>3\<close> and whose centre
  \<open>(2\<^sup>2\<^sup>5+6) * 0.5\<close> is rounded to \<open>2\<^sup>2\<^sup>4+4\<close>, the centre of the root. RemoveNode of
  object 3 empties that child, computes the index 7 for it and deletes the (null) child
  of slot 7: the child of slot 0 stays in the children array of the root with
  \<open>numNodes = 0\<close>.
\<close>

theorem C3_empty_octant_stays:
  "Option.bind (Resize (BoundingBox (Vector3 (F32 16777218) (F32 16777218) (F32 16777218))
                                    (Vector3 (F32 16777222) (F32 16777222) (F32 16777222))) 2
       (Octree_new (\<lambda>_. untracked (pointBox (F32 16777218) (F32 16777218) (F32 16777218))))) (\<lambda>s1.
   Option.bind (Update 1 (QueueUpdate 3 s1)) (\<lambda>s2.
   Option.bind (RemoveNode 3 s2) (\<lambda>s3.
     Some (octant (objs s2 3), octant (objs s3 3), map_option (\<lambda>r. children r 0) (octs s3 root),
           map_option numNodes (octs s3 [0])))))
   = Some (Some [0], None, Some (Some [0]), Some 0)"
proof -
  define B where "B = F32 16777218"
  define C where "C = F32 16777220"
  define T where "T = F32 16777222"
  define pb where "pb = pointBox B B B"
  define bb where "bb = BoundingBox (Vector3 B B B) (Vector3 T T T)"
  define os :: "nat \<Rightarrow> f32 OctreeNode" where "os = (\<lambda>_. untracked pb)"
  define R0 :: "f32 Octant" where "R0 = \<lparr> worldBoundingBox = bb,
       cullingBox = BoundingBox (Vector3 (F32 16777216) (F32 16777216) (F32 16777216))
                                (Vector3 (F32 16777224) (F32 16777224) (F32 16777224)),
       center = Vector3 C C C, halfSize = Vector3 (F32 2) (F32 2) (F32 2), level = 2,
       parent = None, children = (\<lambda>_. None), nodes = [], numNodes = 0, sortDirty = False \<rparr>"
  define K0 :: "f32 Octant" where "K0 = \<lparr> worldBoundingBox = BoundingBox (Vector3 B B B) (Vector3 C C C),
       cullingBox = BoundingBox (Vector3 (F32 16777216) (F32 16777216) (F32 16777216))
                                (Vector3 (F32 16777220) (F32 16777220) (F32 16777220)),
       center = Vector3 C C C, halfSize = Vector3 (F32 1) (F32 1) (F32 1), level = 1,
       parent = Some root, children = (\<lambda>_. None), nodes = [], numNodes = 0, sortDirty = False \<rparr>"
  have g: "Initialize None bb 2 Octant_new = R0"
    "Initialize (Some root) (childBox R0 0) 1 Octant_new = K0"
    "\<not> insertHere root R0 pb"
    "ChildIndex R0 (Center pb) = 0"
    "ChildIndex (R0\<lparr>children := ch, numNodes := k\<rparr>) (center K0) = 7"
    "insertHere [0] K0 pb" for ch k
    by (simp_all add: R0_def K0_def bb_def pb_def Initialize_def Octant_new_def childBox_def geom_defs
        Let_def insertHere_def FitBoundingBox_def IsInside_def ChildIndex_def pointBox_def root_def
        B_def C_def T_def half_f32 f32_defs round_defs bitLength_numeral)
  define S1 where "S1 = \<lparr> octs = (\<lambda>_. None)(root \<mapsto> R0), updateQueue = [], sortDirtyOctants = [],
       objs = os \<rparr>"
  define S2 where "S2 = \<lparr> octs = (\<lambda>_. None)(root \<mapsto> R0\<lparr>children := (\<lambda>_. None)(0 \<mapsto> [0]), numNodes := 1\<rparr>,
                                      [0] \<mapsto> K0\<lparr>nodes := [3], numNodes := 1\<rparr>),
       updateQueue = [], sortDirtyOctants = [],
       objs = os(3 := (untracked pb)\<lparr>octant := Some [0], lastUpdateFrameNumber := 1\<rparr>) \<rparr>"
  have i0: "Initialize None bb 2 (Initialize None b0 l0 Octant_new\<lparr>nodes := [], numNodes := 0\<rparr>) = R0" for b0 l0
    unfolding g(1) [symmetric] by (simp add: Initialize_def Octant_new_def Let_def)
  have r1: "Resize bb 2 (Octree_new os) = Some S1"
    apply (subst Resize_leaf [where oc = "Initialize None
           (BoundingBox (Vector3 (- DEFAULT_OCTREE_SIZE) (- DEFAULT_OCTREE_SIZE) (- DEFAULT_OCTREE_SIZE))
                        (Vector3 DEFAULT_OCTREE_SIZE DEFAULT_OCTREE_SIZE DEFAULT_OCTREE_SIZE))
           DEFAULT_OCTREE_LEVELS Octant_new"])
      apply (simp add: Octree_new_def)
     apply (simp add: Initialize_def Octant_new_def Let_def)
    apply (simp add: S1_def i0 Clamp_def MAX_OCTREE_LEVELS_def)
    apply (simp add: Octree_new_def clearNodes_def Initialize_def Octant_new_def Let_def)
    done
  have R0f: "children R0 = (\<lambda>_. None)" "level R0 = 2" "nodes R0 = []" "numNodes R0 = 0" "\<not> sortDirty R0"
    "parent R0 = None"
    by (simp_all add: R0_def)
  have K0f: "children K0 = (\<lambda>_. None)" "level K0 = 1" "nodes K0 = []" "numNodes K0 = 0" "\<not> sortDirty K0"
    "parent K0 = Some root"
    by (simp_all add: K0_def)
  note nih = g(3) and ci = g(4)
  let ?m1 = "(\<lambda>_. None)(root \<mapsto> R0\<lparr>children := (\<lambda>_. None)(0 \<mapsto> [0])\<rparr>, [0] \<mapsto> K0)"
  have fo: "findOctant s root pb = Some (s\<lparr>octs := ?m1\<rparr>, [0])" if "octs s = (\<lambda>_. None)(root \<mapsto> R0)" for s
    apply (subst findOctant.simps)
    apply (simp add: that nih ci CreateChildOctant_def R0f Let_def g(2))
    apply (subst findOctant.simps)
    apply (simp add: root_def g(6))
    apply (simp add: fun_upd_twist root_def)
    done
  have nb: "nodeBox (untracked pb) = pb" by (simp add: untracked_def)
  have u: "Update 1 (QueueUpdate 3 S1) = Some S2"
    apply (simp add: Update_def QueueUpdate_def updateNode_def S1_def os_def untracked_def reinsert_def fo
        Let_def)
    apply (simp add: AddNode_def Let_def K0f root_def)
    apply (subst incNumNodes.simps)
    apply (simp add: K0f root_def)
    apply (subst incNumNodes.simps)
    apply (simp add: R0f incNumNodes_None RemoveNodeFrom_def S2_def os_def untracked_def root_def)
    apply (simp add: fun_eq_iff K0_def)
    done
  define S3 where "S3 = \<lparr> octs = (\<lambda>_. None)(root \<mapsto> R0\<lparr>children := (\<lambda>_. None)(0 \<mapsto> [0]), numNodes := 0\<rparr>,
                                      [0] \<mapsto> K0),
       updateQueue = [], sortDirtyOctants = [],
       objs = os(3 := (untracked pb)\<lparr>lastUpdateFrameNumber := 1\<rparr>) \<rparr>"
  have rm: "RemoveNode 3 S2 = Some S3"
    apply (simp add: RemoveNode_def RemoveNodeFrom_def S2_def)
    apply (subst decNumNodes.simps)
    apply (simp add: K0f root_def [symmetric] g(5) DeleteChildOctant_def R0f Let_def)
    apply (subst decNumNodes.simps)
    apply (simp add: R0f decNumNodes_None root_def)
    apply (simp add: S3_def os_def untracked_def root_def fun_eq_iff K0_def R0_def)
    done
  have e: "bb = BoundingBox (Vector3 (F32 16777218) (F32 16777218) (F32 16777218))
                           (Vector3 (F32 16777222) (F32 16777222) (F32 16777222))"
    "os = (\<lambda>_. untracked (pointBox (F32 16777218) (F32 16777218) (F32 16777218)))"
    by (simp_all add: bb_def os_def pb_def B_def T_def)
  have "Option.bind (Resize bb 2 (Octree_new os)) (\<lambda>s1.
   Option.bind (Update 1 (QueueUpdate 3 s1)) (\<lambda>s2.
   Option.bind (RemoveNode 3 s2) (\<lambda>s3.
     Some (octant (objs s2 3), octant (objs s3 3), map_option (\<lambda>r. children r 0) (octs s3 root),
           map_option numNodes (octs s3 [0])))))
   = Some (Some [0], None, Some (Some [0]), Some 0)"
    unfolding r1 Option.bind.simps u rm
    by (simp add: S2_def S3_def K0f untracked_def root_def)
  then show ?thesis unfolding e .
qed

text \<open>
  C2 (the code misses it). With the rounding of C3 the index that RemoveNode computes
  for an emptied child can be the slot of another child, which is then freed with its
  objects in it.

  The octree is resized to the box \<open>[2\<^sup>2\<^sup>4+2, 2\<^sup>2\<^sup>4+6]\<^sup>3\<close> with 2 levels. Object 3, a point at
  \<open>2\<^sup>2\<^sup>4+2\<close> on every axis, and object 4, a point at \<open>2\<^sup>2\<^sup>4+6\<close> on every axis, are queued
  and inserted by Update, object 3 into the child of slot 0 and object 4 into the child of
  slot 7. RemoveNode of object 3 empties the child of slot 0, computes the index 7 for it
  and frees the child of slot 7, which holds object 4. Afterwards \<open>numNodes\<close> of the root
  is 1, while no object is tracked: the back-reference of object 4 names the freed
  octant, and the object lists of the two octants left are empty.
\<close>

theorem C2_count_after_wrong_free:
  "Option.bind (Resize (BoundingBox (Vector3 (F32 16777218) (F32 16777218) (F32 16777218))
                                    (Vector3 (F32 16777222) (F32 16777222) (F32 16777222))) 2
       (Octree_new ((\<lambda>_. untracked (pointBox (F32 16777218) (F32 16777218) (F32 16777218)))
                    (4 := untracked (pointBox (F32 16777222) (F32 16777222) (F32 16777222)))))) (\<lambda>s1.
   Option.bind (Update 1 (QueueUpdate 4 (QueueUpdate 3 s1))) (\<lambda>s2.
   Option.bind (RemoveNode 3 s2) (\<lambda>s3.
     Some (octant (objs s2 3), octant (objs s2 4), map_option numNodes (octs s3 root), tracked s3,
           octant (objs s3 4), octs s3 [7] = None, dom (octs s3), nodesOf (octs s3) root,
           nodesOf (octs s3) [0]))))
   = Some (Some [0], Some [7], Some 1, {}, Some [7], True, {root, [0]}, [], [])"
proof -
  define B where "B = F32 16777218"
  define C where "C = F32 16777220"
  define T where "T = F32 16777222"
  define pb where "pb = pointBox B B B"
  define pt where "pt = pointBox T T T"
  define bb where "bb = BoundingBox (Vector3 B B B) (Vector3 T T T)"
  define os :: "nat \<Rightarrow> f32 OctreeNode" where "os = (\<lambda>_. untracked pb)(4 := untracked pt)"
  define R0 :: "f32 Octant" where "R0 = \<lparr> worldBoundingBox = bb,
       cullingBox = BoundingBox (Vector3 (F32 16777216) (F32 16777216) (F32 16777216))
                                (Vector3 (F32 16777224) (F32 16777224) (F32 16777224)),
       center = Vector3 C C C, halfSize = Vector3 (F32 2) (F32 2) (F32 2), level = 2,
       parent = None, children = (\<lambda>_. None), nodes = [], numNodes = 0, sortDirty = False \<rparr>"
  define K0 :: "f32 Octant" where "K0 = \<lparr> worldBoundingBox = BoundingBox (Vector3 B B B) (Vector3 C C C),
       cullingBox = BoundingBox (Vector3 (F32 16777216) (F32 16777216) (F32 16777216))
                                (Vector3 (F32 16777220) (F32 16777220) (F32 16777220)),
       center = Vector3 C C C, halfSize = Vector3 (F32 1) (F32 1) (F32 1), level = 1,
       parent = Some root, children = (\<lambda>_. None), nodes = [], numNodes = 0, sortDirty = False \<rparr>"
  define K7 :: "f32 Octant" where "K7 = \<lparr> worldBoundingBox = BoundingBox (Vector3 C C C) (Vector3 T T T),
       cullingBox = BoundingBox (Vector3 (F32 16777220) (F32 16777220) (F32 16777220))
                                (Vector3 (F32 16777224) (F32 16777224) (F32 16777224)),
       center = Vector3 C C C, halfSize = Vector3 (F32 1) (F32 1) (F32 1), level = 1,
       parent = Some root, children = (\<lambda>_. None), nodes = [], numNodes = 0, sortDirty = False \<rparr>"
  have g: "Initialize None bb 2 Octant_new = R0"
    "Initialize (Some root) (childBox (R0\<lparr>children := ch, numNodes := k\<rparr>) 0) 1 Octant_new = K0"
    "Initialize (Some root) (childBox (R0\<lparr>children := ch, numNodes := k\<rparr>) 7) 1 Octant_new = K7"
    "\<not> insertHere root (R0\<lparr>children := ch, numNodes := k\<rparr>) pb"
    "\<not> insertHere root (R0\<lparr>children := ch, numNodes := k\<rparr>) pt"
    "ChildIndex (R0\<lparr>children := ch, numNodes := k\<rparr>) (Center pb) = 0"
    "ChildIndex (R0\<lparr>children := ch, numNodes := k\<rparr>) (Center pt) = 7"
    "ChildIndex (R0\<lparr>children := ch, numNodes := k\<rparr>) (center K0) = 7"
    "insertHere [0] K0 pb" "insertHere [7] K7 pt" for ch k
    by (simp_all add: R0_def K0_def K7_def bb_def pb_def pt_def Initialize_def Octant_new_def childBox_def
        geom_defs Let_def insertHere_def FitBoundingBox_def IsInside_def ChildIndex_def pointBox_def
        root_def B_def C_def T_def half_f32 f32_defs round_defs bitLength_numeral)
  have R0f: "children R0 = (\<lambda>_. None)" "level R0 = 2" "nodes R0 = []" "numNodes R0 = 0" "\<not> sortDirty R0"
    "parent R0 = None"
    by (simp_all add: R0_def)
  have K0f: "children K0 = (\<lambda>_. None)" "level K0 = 1" "nodes K0 = []" "numNodes K0 = 0" "\<not> sortDirty K0"
    "parent K0 = Some root"
    by (simp_all add: K0_def)
  have K7f: "children K7 = (\<lambda>_. None)" "level K7 = 1" "nodes K7 = []" "numNodes K7 = 0" "\<not> sortDirty K7"
    "parent K7 = Some root"
    by (simp_all add: K7_def)
  have i0: "Initialize None bb 2 (Initialize None b0 l0 Octant_new\<lparr>nodes := [], numNodes := 0\<rparr>) = R0" for b0 l0
    unfolding g(1) [symmetric] by (simp add: Initialize_def Octant_new_def Let_def)
  define S1 where "S1 = \<lparr> octs = (\<lambda>_. None)(root \<mapsto> R0), updateQueue = [], sortDirtyOctants = [],
       objs = os \<rparr>"
  have r1: "Resize bb 2 (Octree_new os) = Some S1"
    apply (subst Resize_leaf [where oc = "Initialize None
           (BoundingBox (Vector3 (- DEFAULT_OCTREE_SIZE) (- DEFAULT_OCTREE_SIZE) (- DEFAULT_OCTREE_SIZE))
                        (Vector3 DEFAULT_OCTREE_SIZE DEFAULT_OCTREE_SIZE DEFAULT_OCTREE_SIZE))
           DEFAULT_OCTREE_LEVELS Octant_new"])
      apply (simp add: Octree_new_def)
     apply (simp add: Initialize_def Octant_new_def Let_def)
    apply (simp add: S1_def i0 Clamp_def MAX_OCTREE_LEVELS_def)
    apply (simp add: Octree_new_def clearNodes_def Initialize_def Octant_new_def Let_def)
    done
  have fo3: "findOctant s root pb =
      Some (s\<lparr>octs := (octs s)([0] \<mapsto> K0, root \<mapsto> R0\<lparr>children := ch(0 \<mapsto> [0]), numNodes := k\<rparr>)\<rparr>, [0])"
    if "octs s root = Some (R0\<lparr>children := ch, numNodes := k\<rparr>)" "ch 0 = None" for s ch k
    apply (subst findOctant.simps)
    apply (simp add: that g CreateChildOctant_def R0f Let_def)
    apply (subst findOctant.simps)
    apply (simp add: root_def g)
    apply (simp add: R0_def)
    done
  have fo4: "findOctant s root pt =
      Some (s\<lparr>octs := (octs s)([7] \<mapsto> K7, root \<mapsto> R0\<lparr>children := ch(7 \<mapsto> [7]), numNodes := k\<rparr>)\<rparr>, [7])"
    if "octs s root = Some (R0\<lparr>children := ch, numNodes := k\<rparr>)" "ch 7 = None" for s ch k
    apply (subst findOctant.simps)
    apply (simp add: that g CreateChildOctant_def R0f Let_def)
    apply (subst findOctant.simps)
    apply (simp add: root_def g)
    apply (simp add: R0_def)
    done
  define Sa where "Sa = \<lparr> octs = (\<lambda>_. None)(root \<mapsto> R0\<lparr>children := (\<lambda>_. None)(0 \<mapsto> [0]), numNodes := 1\<rparr>,
                                      [0] \<mapsto> K0\<lparr>nodes := [3], numNodes := 1, sortDirty := True\<rparr>),
       updateQueue = [Some 3, Some 4], sortDirtyOctants = [[0]],
       objs = os(3 := (untracked pb)\<lparr>octant := Some [0], lastUpdateFrameNumber := 1\<rparr>,
                 4 := (untracked pt)\<lparr>updateQueued := True\<rparr>) \<rparr>"
  have u3: "updateNode 1 3 (QueueUpdate 4 (QueueUpdate 3 S1)) = Some Sa"
    apply (simp add: QueueUpdate_def updateNode_def S1_def os_def untracked_def reinsert_def Let_def)
    apply (subst fo3 [where ch = "\<lambda>_. None" and k = 0])
      apply (simp add: R0_def)
     apply simp
    apply (simp add: AddNode_def Let_def K0f root_def)
    apply (subst incNumNodes.simps)
    apply (simp add: K0f root_def)
    apply (subst incNumNodes.simps)
    apply (simp add: R0f incNumNodes_None RemoveNodeFrom_def Sa_def os_def untracked_def root_def)
    apply (simp add: fun_eq_iff K0_def R0_def)
    done
  define Sb where "Sb = \<lparr> octs = (\<lambda>_. None)(root \<mapsto> R0\<lparr>children := (\<lambda>_. None)(0 \<mapsto> [0], 7 \<mapsto> [7]), numNodes := 2\<rparr>,
                                      [0] \<mapsto> K0\<lparr>nodes := [3], numNodes := 1, sortDirty := True\<rparr>,
                                      [7] \<mapsto> K7\<lparr>nodes := [4], numNodes := 1, sortDirty := True\<rparr>),
       updateQueue = [Some 3, Some 4], sortDirtyOctants = [[0], [7]],
       objs = os(3 := (untracked pb)\<lparr>octant := Some [0], lastUpdateFrameNumber := 1\<rparr>,
                 4 := (untracked pt)\<lparr>octant := Some [7], lastUpdateFrameNumber := 1\<rparr>) \<rparr>"
  have u4: "updateNode 1 4 Sa = Some Sb"
    apply (simp add: updateNode_def Sa_def os_def untracked_def reinsert_def Let_def)
    apply (subst fo4 [where ch = "(\<lambda>_. None)(0 \<mapsto> [0])" and k = 1])
      apply (simp add: R0_def root_def)
     apply simp
    apply (simp add: AddNode_def Let_def K7f root_def)
    apply (subst incNumNodes.simps)
    apply (simp add: K7f root_def)
    apply (subst incNumNodes.simps)
    apply (simp add: R0f incNumNodes_None RemoveNodeFrom_def Sb_def os_def untracked_def root_def)
    apply (simp add: fun_eq_iff K0_def K7_def R0_def)
    done
  define S2 where "S2 = \<lparr> octs = (\<lambda>_. None)(root \<mapsto> R0\<lparr>children := (\<lambda>_. None)(0 \<mapsto> [0], 7 \<mapsto> [7]), numNodes := 2\<rparr>,
                                      [0] \<mapsto> K0\<lparr>nodes := [3], numNodes := 1\<rparr>,
                                      [7] \<mapsto> K7\<lparr>nodes := [4], numNodes := 1\<rparr>),
       updateQueue = [], sortDirtyOctants = [],
       objs = os(3 := (untracked pb)\<lparr>octant := Some [0], lastUpdateFrameNumber := 1\<rparr>,
                 4 := (untracked pt)\<lparr>octant := Some [7], lastUpdateFrameNumber := 1\<rparr>) \<rparr>"
  have q: "updateQueue (QueueUpdate 4 (QueueUpdate 3 S1)) = [Some 3, Some 4]"
    by (simp add: QueueUpdate_def S1_def)
  have u: "Update 1 (QueueUpdate 4 (QueueUpdate 3 S1)) = Some S2"
    unfolding Update_def q
    apply (simp add: u3 u4)
    apply (simp add: Sb_def S2_def root_def fun_eq_iff K0_def K7_def R0_def)
    done
  define S3 where "S3 = \<lparr> octs = (\<lambda>_. None)(root \<mapsto> R0\<lparr>children := (\<lambda>_. None)(0 \<mapsto> [0]), numNodes := 1\<rparr>,
                                      [0] \<mapsto> K0),
       updateQueue = [], sortDirtyOctants = [],
       objs = os(3 := (untracked pb)\<lparr>lastUpdateFrameNumber := 1\<rparr>,
                 4 := (untracked pt)\<lparr>octant := Some [7], lastUpdateFrameNumber := 1\<rparr>) \<rparr>"
  have rm: "RemoveNode 3 S2 = Some S3"
    apply (simp add: RemoveNode_def RemoveNodeFrom_def S2_def)
    apply (subst decNumNodes.simps)
    apply (simp add: K0f root_def [symmetric] g DeleteChildOctant_def R0f Let_def)
    apply (subst decNumNodes.simps)
    apply (simp add: R0f decNumNodes_None root_def)
    apply (simp add: S3_def os_def untracked_def root_def fun_eq_iff K0_def R0_def)
    done
  have e: "bb = BoundingBox (Vector3 (F32 16777218) (F32 16777218) (F32 16777218))
                           (Vector3 (F32 16777222) (F32 16777222) (F32 16777222))"
    "os = (\<lambda>_. untracked (pointBox (F32 16777218) (F32 16777218) (F32 16777218)))
            (4 := untracked (pointBox (F32 16777222) (F32 16777222) (F32 16777222)))"
    by (simp_all add: bb_def os_def pb_def pt_def B_def T_def)
  have tr: "tracked S3 = {}"
    by (auto simp: tracked_def S3_def os_def untracked_def root_def)
  have dm: "dom (octs S3) = {root, [0]}"
    by (auto simp: S3_def root_def)
  have "Option.bind (Resize bb 2 (Octree_new os)) (\<lambda>s1.
   Option.bind (Update 1 (QueueUpdate 4 (QueueUpdate 3 s1))) (\<lambda>s2.
   Option.bind (RemoveNode 3 s2) (\<lambda>s3.
     Some (octant (objs s2 3), octant (objs s2 4), map_option numNodes (octs s3 root), tracked s3,
           octant (objs s3 4), octs s3 [7] = None, dom (octs s3), nodesOf (octs s3) root,
           nodesOf (octs s3) [0]))))
   = Some (Some [0], Some [7], Some 1, {}, Some [7], True, {root, [0]}, [], [])"
    unfolding r1 Option.bind.simps u rm tr dm
    by (simp add: S2_def S3_def K0f R0f untracked_def root_def nodesOf_def)
  then show ?thesis unfolding e .
qed

text \<open>
  C1 (the code misses it). Update descends into the child selected by the centre of the
  box whenever FitBoundingBox fails for the parent, and does not test the cullingBox of
  the child. In binary32 the centre and the half-size of the child are rounded, and its
  cullingBox can be smaller than the region FitBoundingBox has tested.

  The octree is resized to the box \<open>[2\<^sup>2\<^sup>4, 2\<^sup>2\<^sup>4+6]\<^sup>3\<close> with 2 levels: half-size 3, centre
  \<open>(2\<^sup>2\<^sup>5+6) * 0.5\<close> rounded to \<open>2\<^sup>2\<^sup>4+4\<close>. Object 3 has the box \<open>[2\<^sup>2\<^sup>4+2, 2\<^sup>2\<^sup>4+4]\<^sup>3\<close>, of
  size 2 and centre rounded to \<open>2\<^sup>2\<^sup>4+4\<close>. It is inside the cullingBox of the root and
  FitBoundingBox fails for the root, so Update inserts it into the child of slot 7, of
  box \<open>[2\<^sup>2\<^sup>4+4, 2\<^sup>2\<^sup>4+6]\<^sup>3\<close>, half-size 1 and cullingBox \<open>[2\<^sup>2\<^sup>4+4, 2\<^sup>2\<^sup>4+8]\<^sup>3\<close> (the bounds
  \<open>2\<^sup>2\<^sup>4+3\<close> and \<open>2\<^sup>2\<^sup>4+7\<close> are rounded to even). After Update the octant of object 3 is not
  the root and its cullingBox does not contain the box of the object, which begins at
  \<open>2\<^sup>2\<^sup>4+2\<close>.
\<close>

theorem C1_placed_outside_culling:
  "Option.bind (Resize (BoundingBox (Vector3 (F32 16777216) (F32 16777216) (F32 16777216))
                                    (Vector3 (F32 16777222) (F32 16777222) (F32 16777222))) 2
       (Octree_new (\<lambda>_. untracked (BoundingBox (Vector3 (F32 16777218) (F32 16777218) (F32 16777218))
                                                  (Vector3 (F32 16777220) (F32 16777220) (F32 16777220)))))) (\<lambda>s1.
   Option.bind (Update 1 (QueueUpdate 3 s1)) (\<lambda>s2.
     Some (octant (objs s2 3), map_option cullingBox (octs s2 [7]),
           map_option (\<lambda>oc. IsInside (cullingBox oc) (nodeBox (objs s2 3))) (octs s2 [7]))))
   = Some (Some [7],
           Some (BoundingBox (Vector3 (F32 16777220) (F32 16777220) (F32 16777220))
                             (Vector3 (F32 16777224) (F32 16777224) (F32 16777224))),
           Some INTERSECTS)"
proof -
  define A where "A = F32 16777216"
  define B where "B = F32 16777218"
  define C where "C = F32 16777220"
  define T where "T = F32 16777222"
  define pb where "pb = BoundingBox (Vector3 B B B) (Vector3 C C C)"
  define bb where "bb = BoundingBox (Vector3 A A A) (Vector3 T T T)"
  define os :: "nat \<Rightarrow> f32 OctreeNode" where "os = (\<lambda>_. untracked pb)"
  define R0 :: "f32 Octant" where "R0 = \<lparr> worldBoundingBox = bb,
       cullingBox = BoundingBox (Vector3 (F32 16777213) (F32 16777213) (F32 16777213))
                                (Vector3 (F32 16777224) (F32 16777224) (F32 16777224)),
       center = Vector3 C C C, halfSize = Vector3 (F32 3) (F32 3) (F32 3), level = 2,
       parent = None, children = (\<lambda>_. None), nodes = [], numNodes = 0, sortDirty = False \<rparr>"
  define K7 :: "f32 Octant" where "K7 = \<lparr> worldBoundingBox = BoundingBox (Vector3 C C C) (Vector3 T T T),
       cullingBox = BoundingBox (Vector3 (F32 16777220) (F32 16777220) (F32 16777220))
                                (Vector3 (F32 16777224) (F32 16777224) (F32 16777224)),
       center = Vector3 C C C, halfSize = Vector3 (F32 1) (F32 1) (F32 1), level = 1,
       parent = Some root, children = (\<lambda>_. None), nodes = [], numNodes = 0, sortDirty = False \<rparr>"
  have g: "Initialize None bb 2 Octant_new = R0"
    "Initialize (Some root) (childBox R0 7) 1 Octant_new = K7"
    "\<not> insertHere root R0 pb"
    "ChildIndex R0 (Center pb) = 7"
    "insertHere [7] K7 pb"
    "IsInside (cullingBox K7) pb = INTERSECTS"
    by (simp_all add: R0_def K7_def bb_def pb_def Initialize_def Octant_new_def childBox_def
        geom_defs Let_def insertHere_def FitBoundingBox_def IsInside_def ChildIndex_def
        root_def A_def B_def C_def T_def half_f32 f32_defs round_defs bitLength_numeral)
  have R0f: "children R0 = (\<lambda>_. None)" "level R0 = 2" "nodes R0 = []" "numNodes R0 = 0" "\<not> sortDirty R0"
    "parent R0 = None"
    by (simp_all add: R0_def)
  have K7f: "children K7 = (\<lambda>_. None)" "level K7 = 1" "nodes K7 = []" "numNodes K7 = 0" "\<not> sortDirty K7"
    "parent K7 = Some root"
    by (simp_all add: K7_def)
  have i0: "Initialize None bb 2 (Initialize None b0 l0 Octant_new\<lparr>nodes := [], numNodes := 0\<rparr>) = R0" for b0 l0
    unfolding g(1) [symmetric] by (simp add: Initialize_def Octant_new_def Let_def)
  define S1 where "S1 = \<lparr> octs = (\<lambda>_. None)(root \<mapsto> R0), updateQueue = [], sortDirtyOctants = [],
       objs = os \<rparr>"
  have r1: "Resize bb 2 (Octree_new os) = Some S1"
    apply (subst Resize_leaf [where oc = "Initialize None
           (BoundingBox (Vector3 (- DEFAULT_OCTREE_SIZE) (- DEFAULT_OCTREE_SIZE) (- DEFAULT_OCTREE_SIZE))
                        (Vector3 DEFAULT_OCTREE_SIZE DEFAULT_OCTREE_SIZE DEFAULT_OCTREE_SIZE))
           DEFAULT_OCTREE_LEVELS Octant_new"])
      apply (simp add: Octree_new_def)
     apply (simp add: Initialize_def Octant_new_def Let_def)
    apply (simp add: S1_def i0 Clamp_def MAX_OCTREE_LEVELS_def)
    apply (simp add: Octree_new_def clearNodes_def Initialize_def Octant_new_def Let_def)
    done
  have fo: "findOctant s root pb =
      Some (s\<lparr>octs := (octs s)([7] \<mapsto> K7, root \<mapsto> R0\<lparr>children := (\<lambda>_. None)(7 \<mapsto> [7])\<rparr>)\<rparr>, [7])"
    if "octs s root = Some R0" for s
    apply (subst findOctant.simps)
    apply (simp add: that g CreateChildOctant_def R0f Let_def)
    apply (subst findOctant.simps)
    apply (simp add: root_def g)
    done
  define S2 where "S2 = \<lparr> octs = (\<lambda>_. None)(root \<mapsto> R0\<lparr>children := (\<lambda>_. None)(7 \<mapsto> [7]), numNodes := 1\<rparr>,
                                      [7] \<mapsto> K7\<lparr>nodes := [3], numNodes := 1\<rparr>),
       updateQueue = [], sortDirtyOctants = [],
       objs = os(3 := (untracked pb)\<lparr>octant := Some [7], lastUpdateFrameNumber := 1\<rparr>) \<rparr>"
  have u: "Update 1 (QueueUpdate 3 S1) = Some S2"
    apply (simp add: Update_def QueueUpdate_def updateNode_def S1_def os_def untracked_def reinsert_def fo
        Let_def)
    apply (simp add: AddNode_def Let_def K7f root_def)
    apply (subst incNumNodes.simps)
    apply (simp add: K7f root_def)
    apply (subst incNumNodes.simps)
    apply (simp add: R0f incNumNodes_None RemoveNodeFrom_def S2_def os_def untracked_def root_def)
    apply (simp add: fun_eq_iff K7_def R0_def)
    done
  have e: "bb = BoundingBox (Vector3 (F32 16777216) (F32 16777216) (F32 16777216))
                           (Vector3 (F32 16777222) (F32 16777222) (F32 16777222))"
    "os = (\<lambda>_. untracked (BoundingBox (Vector3 (F32 16777218) (F32 16777218) (F32 16777218))
                                       (Vector3 (F32 16777220) (F32 16777220) (F32 16777220))))"
    by (simp_all add: bb_def os_def pb_def A_def B_def C_def T_def)
  have c7: "cullingBox K7 = BoundingBox (Vector3 (F32 16777220) (F32 16777220) (F32 16777220))
                             (Vector3 (F32 16777224) (F32 16777224) (F32 16777224))"
    by (simp add: K7_def)
  have "Option.bind (Resize bb 2 (Octree_new os)) (\<lambda>s1.
   Option.bind (Update 1 (QueueUpdate 3 s1)) (\<lambda>s2.
     Some (octant (objs s2 3), map_option cullingBox (octs s2 [7]),
           map_option (\<lambda>oc. IsInside (cullingBox oc) (nodeBox (objs s2 3))) (octs s2 [7]))))
   = Some (Some [7],
           Some (BoundingBox (Vector3 (F32 16777220) (F32 16777220) (F32 16777220))
                             (Vector3 (F32 16777224) (F32 16777224) (F32 16777224))),
           Some INTERSECTS)"
    unfolding r1 Option.bind.simps u
    by (simp add: S2_def untracked_def root_def g(6) [unfolded c7] c7)
  then show ?thesis unfolding e .
qed

end
